theory Spec2Isabelle
  imports
    Complex_Main
    "HOL-Library.Word"
    "HOL-Library.Multiset"
    "HOL-Library.List_Lexorder"
    "HOL-Library.Char_ord"
    "HOL-Library.Product_Lexorder"
begin

chapter \<open>The program\<close>

section \<open>Machine types\<close>

text \<open>
  The toolkit is compiled for LP64 Linux: \<open>uint32_t\<close> is a 32-bit word, \<open>uint64_t\<close> and the
  \<open>long\<close> returned by \<open>atol\<close> are 64-bit words.  A \<open>float\<close> is modelled as a real number:
  comparisons and arithmetic are exact, rounding is not modelled.
\<close>

type_synonym u32 = "32 word"
type_synonym u64 = "64 word"

section \<open>Heap and sorting algorithms of the C++ standard library\<close>

text \<open>
  \<open>push_heap\<close>, \<open>pop_heap\<close>, \<open>make_heap\<close> and \<open>sort\<close> are library functions.  They are
  modelled by the algorithms of the GNU implementation (bits/stl\_heap.h, bits/stl\_algo.h).
  An array is a list; a range \<open>[first, first + n)\<close> is the first \<open>n\<close> elements of the list,
  and the elements behind it are left as they are.  \<open>cmp\<close> is the comparison object \<open>comp\<close> of the library.
\<close>

text \<open>\<open>__push_heap(first, holeIndex, topIndex, value, cmp)\<close>.\<close>

function push_heap_loop :: "('a \<Rightarrow> 'a \<Rightarrow> bool) \<Rightarrow> 'a list \<Rightarrow> nat \<Rightarrow> nat \<Rightarrow> 'a \<Rightarrow> 'a list" where
  "push_heap_loop cmp a holeIndex topIndex v =
     (let parent = (holeIndex - 1) div 2 in
      if holeIndex > topIndex \<and> cmp (a ! parent) v
      then push_heap_loop cmp (a[holeIndex := a ! parent]) parent topIndex v
      else a[holeIndex := v])"
  by pat_completeness auto
termination
  by (relation "measure (\<lambda>(cmp, a, holeIndex, topIndex, v). holeIndex)") auto

text \<open>\<open>push_heap(first, first + n, cmp)\<close>; the range must not be empty.\<close>

definition push_heap :: "('a \<Rightarrow> 'a \<Rightarrow> bool) \<Rightarrow> 'a list \<Rightarrow> nat \<Rightarrow> 'a list" where
  "push_heap cmp a n = (if n = 0 then a else push_heap_loop cmp a (n - 1) 0 (a ! (n - 1)))"

text \<open>
  The first loop of \<open>__adjust_heap(first, holeIndex, len, value, cmp)\<close>: the hole moves down
  to the child that \<open>cmp\<close> does not put before the other, while it has two children.
\<close>

function adjust_heap_loop :: "('a \<Rightarrow> 'a \<Rightarrow> bool) \<Rightarrow> 'a list \<Rightarrow> nat \<Rightarrow> nat \<Rightarrow> 'a list \<times> nat" where
  "adjust_heap_loop cmp a holeIndex len =
     (if holeIndex < (len - 1) div 2
      then
        let secondChild = 2 * (holeIndex + 1);
            secondChild = (if cmp (a ! secondChild) (a ! (secondChild - 1))
                           then secondChild - 1 else secondChild)
        in adjust_heap_loop cmp (a[holeIndex := a ! secondChild]) secondChild len
      else (a, holeIndex))"
  by pat_completeness auto
termination
  by (relation "measure (\<lambda>(cmp, a, holeIndex, len). len - holeIndex)") auto

text \<open>
  \<open>__adjust_heap\<close>: after the loop, a hole whose only child is the last element of an even
  range takes that child (the test \<open>secondChild == (len - 2) / 2\<close> is on signed integers and
  fails for an empty range); then \<open>__push_heap\<close> moves the value up from the hole.
\<close>

definition adjust_heap :: "('a \<Rightarrow> 'a \<Rightarrow> bool) \<Rightarrow> 'a list \<Rightarrow> nat \<Rightarrow> nat \<Rightarrow> 'a \<Rightarrow> 'a list" where
  "adjust_heap cmp a holeIndex len v =
     (let topIndex = holeIndex;
          (a, secondChild) = adjust_heap_loop cmp a holeIndex len;
          (a, holeIndex) =
             (if len mod 2 = 0 \<and> 2 \<le> len \<and> secondChild = (len - 2) div 2
              then (a[secondChild := a ! (2 * (secondChild + 1) - 1)], 2 * (secondChild + 1) - 1)
              else (a, secondChild))
      in push_heap_loop cmp a holeIndex topIndex v)"

text \<open>
  \<open>pop_heap(first, first + n, cmp)\<close>: the first element goes to the end of the range and the
  element that was there is sifted into the rest.
\<close>

definition pop_heap :: "('a \<Rightarrow> 'a \<Rightarrow> bool) \<Rightarrow> 'a list \<Rightarrow> nat \<Rightarrow> 'a list" where
  "pop_heap cmp a n =
     (if n > 1
      then let v = a ! (n - 1); a = a[n - 1 := a ! 0] in adjust_heap cmp a 0 (n - 1) v
      else a)"

text \<open>\<open>make_heap(first, first + n, cmp)\<close>: \<open>__adjust_heap\<close> at the parents \<open>(n - 2) / 2\<close> down to 0.\<close>

fun make_heap_loop :: "('a \<Rightarrow> 'a \<Rightarrow> bool) \<Rightarrow> 'a list \<Rightarrow> nat \<Rightarrow> nat \<Rightarrow> 'a list" where
  "make_heap_loop cmp a len 0 = adjust_heap cmp a 0 len (a ! 0)"
| "make_heap_loop cmp a len (Suc parent) =
     make_heap_loop cmp (adjust_heap cmp a (Suc parent) len (a ! Suc parent)) len parent"

definition make_heap :: "('a \<Rightarrow> 'a \<Rightarrow> bool) \<Rightarrow> 'a list \<Rightarrow> nat \<Rightarrow> 'a list" where
  "make_heap cmp a n = (if n < 2 then a else make_heap_loop cmp a n ((n - 2) div 2))"

text \<open>
  \<open>sort(first, last, cmp)\<close> leaves the order of equivalent elements unspecified.  The model
  is the insertion sort that the GNU implementation runs on a range of at most 16 elements
  (\<open>__insertion_sort\<close>): an element that \<open>cmp\<close> puts before the first one is moved to the
  front, any other element moves left past the elements it is put before
  (\<open>__unguarded_linear_insert\<close>).  On a longer range the library partitions the range first,
  and elements that are equivalent for \<open>cmp\<close> can come out in another order than here; where
  no two elements are equivalent, every sorting algorithm gives the same array.
\<close>

definition unguarded_linear_insert :: "('a \<Rightarrow> 'a \<Rightarrow> bool) \<Rightarrow> 'a list \<Rightarrow> 'a \<Rightarrow> 'a list" where
  "unguarded_linear_insert cmp sorted_part val =
     rev (dropWhile (cmp val) (rev sorted_part)) @ val # rev (takeWhile (cmp val) (rev sorted_part))"

fun insertion_sort_loop :: "('a \<Rightarrow> 'a \<Rightarrow> bool) \<Rightarrow> 'a list \<Rightarrow> 'a list \<Rightarrow> 'a list" where
  "insertion_sort_loop cmp sorted_part [] = sorted_part"
| "insertion_sort_loop cmp sorted_part (val # rest) =
     insertion_sort_loop cmp
       (if cmp val (hd sorted_part) then val # sorted_part
        else unguarded_linear_insert cmp sorted_part val)
       rest"

definition std_sort :: "('a \<Rightarrow> 'a \<Rightarrow> bool) \<Rightarrow> 'a list \<Rightarrow> 'a list" where
  "std_sort cmp a = (case a of [] \<Rightarrow> [] | x # rest \<Rightarrow> insertion_sort_loop cmp [x] rest)"

text \<open>The function object \<open>greater<float>\<close>.\<close>

definition greater :: "'a :: ord \<Rightarrow> 'a \<Rightarrow> bool" where
  "greater x y = (x > y)"

section \<open>QueryProcessor::KthScore (query\_processor.cc)\<close>

text \<open>\<open>numeric_limits<float>::max()\<close>, the largest finite single-precision number.\<close>

definition FLT_MAX :: real where
  "FLT_MAX = (2 ^ 24 - 1) * 2 ^ 104"

text \<open>
  \<open>KthScore\<close> returns its result and the array \<open>scores\<close> as it leaves it.  The parameters
  \<open>num_scores\<close> and \<open>kth_score\<close> are non-negative \<open>int\<close>s; \<open>num_scores\<close> is passed by value,
  so the increment is local.  The array has at least \<open>kth_score\<close> elements.
\<close>

definition KthScore :: "real \<Rightarrow> real list \<Rightarrow> nat \<Rightarrow> nat \<Rightarrow> real \<times> real list" where
  "KthScore new_score scores num_scores kth_score =
     (let (scores, num_scores) =
        (if num_scores < kth_score
         then (push_heap greater (scores[num_scores := new_score]) (num_scores + 1), num_scores + 1)
         else if new_score > scores ! 0
              then (push_heap greater
                      ((pop_heap greater scores kth_score)[kth_score - 1 := new_score]) kth_score,
                    num_scores)
              else (scores, num_scores))
      in (if num_scores < kth_score then - FLT_MAX else scores ! 0, scores))"

text \<open>
  The way \<open>ProcessListLayer\<close> and \<open>ProcessListLayerAnd\<close> call it,
  \<open>threshold = KthScore(score, top_k_scores, num_top_k_scores++, k)\<close>, once per score: the
  results of the calls, and the array after the last one.
\<close>

fun KthScore_calls :: "nat \<Rightarrow> real list \<Rightarrow> nat \<Rightarrow> real list \<Rightarrow> real list \<times> real list" where
  "KthScore_calls k top_k_scores num_top_k_scores [] = ([], top_k_scores)"
| "KthScore_calls k top_k_scores num_top_k_scores (score # rest) =
     (let (threshold, top_k_scores) = KthScore score top_k_scores num_top_k_scores k;
          (thresholds, top_k_scores) = KthScore_calls k top_k_scores (num_top_k_scores + 1) rest
      in (threshold # thresholds, top_k_scores))"

text \<open>The \<open>k\<close>-th largest element of a list with at least \<open>k \<ge> 1\<close> elements.\<close>

definition kth_largest :: "nat \<Rightarrow> 'a :: linorder list \<Rightarrow> 'a" where
  "kth_largest k xs = rev (sort xs) ! (k - 1)"

section \<open>QueryProcessor::LoadIndexProperties (query\_processor.cc)\<close>

text \<open>
  The two members of \<open>QueryProcessor\<close> that \<open>LoadIndexProperties\<close> sets from the meta file
  (query\_processor.h: both are \<open>uint32_t\<close>).
\<close>

record index_properties =
  collection_average_doc_len :: u32
  collection_total_num_docs :: u32

text \<open>
  The arguments are the two \<open>long\<close> values \<open>atol\<close> returns for the meta keys
  \<open>total_num_docs\<close> and \<open>total_document_lengths\<close>.  The first is stored in a \<open>uint32_t\<close>
  member (the upper half is cut off), the second in a local \<open>uint64_t\<close>.  Both tests
  \<open>x <= 0\<close> are on unsigned values.  The quotient is a \<open>uint64_t\<close> division whose result is
  stored in the \<open>uint32_t\<close> member.
\<close>

definition LoadIndexProperties :: "u64 \<Rightarrow> u64 \<Rightarrow> index_properties" where
  "LoadIndexProperties atol_total_num_docs atol_total_document_lengths =
     (let total_num_docs = (ucast atol_total_num_docs :: u32);
          collection_total_document_lengths = atol_total_document_lengths
      in \<lparr> collection_average_doc_len =
             (if total_num_docs \<le> 0 \<or> collection_total_document_lengths \<le> 0 then 1
              else ucast (collection_total_document_lengths div ucast total_num_docs)),
           collection_total_num_docs = total_num_docs \<rparr>)"

text \<open>
  Every evaluator (\<open>IntersectLists\<close>, \<open>MergeLists\<close>, ...) starts with the constants
  \<open>kBm25K1 = 2.0\<close>, \<open>kBm25B = 0.75\<close> and
  \<open>kBm25DenominatorDocLenMul = kBm25K1 * kBm25B / collection_average_doc_len_\<close>, a division
  of \<open>float\<close> values.  Floats are modelled as reals; for the divisor 0 the quotient is the
  infinity of the \<open>float\<close> type, which is \<open>None\<close> here.
\<close>

definition kBm25K1 :: real where
  "kBm25K1 = 2.0"

definition kBm25B :: real where
  "kBm25B = 0.75"

definition kBm25DenominatorDocLenMul :: "index_properties \<Rightarrow> real option" where
  "kBm25DenominatorDocLenMul p =
     (if collection_average_doc_len p = 0 then None
      else Some (kBm25K1 * kBm25B / real (unat (collection_average_doc_len p))))"


section \<open>QueryProcessor::ExecuteQuery (query\_processor.cc)\<close>

text \<open>
  The enumeration \<open>QueryProcessor::QueryAlgorithm\<close> of query\_processor.h and the local
  enumeration \<open>ProcessingSemantics\<close> of \<open>ExecuteQuery\<close>.
\<close>

datatype QueryAlgorithm =
    kDefault | kDaatAnd | kDaatOr | kTaatOr
  | kDualLayeredOverlappingDaat | kDualLayeredOverlappingMergeDaat
  | kLayeredTaatOrEarlyTerminated
  | kWand | kDualLayeredWand
  | kMaxScore | kDualLayeredMaxScore
  | kDaatAndTopPositions

datatype ProcessingSemantics = kAnd | kOr | kUndefined

text \<open>The first \<open>switch\<close> of \<open>ExecuteQuery\<close>; its \<open>default\<close> branch is \<open>assert(false)\<close>.\<close>

fun processing_semantics :: "QueryAlgorithm \<Rightarrow> ProcessingSemantics" where
  "processing_semantics kDaatAnd = kAnd"
| "processing_semantics kDualLayeredOverlappingDaat = kAnd"
| "processing_semantics kDualLayeredOverlappingMergeDaat = kAnd"
| "processing_semantics kDaatOr = kOr"
| "processing_semantics kLayeredTaatOrEarlyTerminated = kOr"
| "processing_semantics kWand = kOr"
| "processing_semantics kDualLayeredWand = kOr"
| "processing_semantics kMaxScore = kOr"
| "processing_semantics kDualLayeredMaxScore = kOr"
| "processing_semantics _ = kUndefined"

text \<open>
  The member function the second \<open>switch\<close> calls, with the value of its \<open>two_tiered\<close>
  argument where it has one; \<open>None\<close> is the \<open>default\<close> branch (\<open>assert(false)\<close>).
\<close>

datatype evaluator =
    Call_ProcessQuery
  | Call_ProcessLayeredQuery
  | Call_ProcessLayeredTaatPrunedEarlyTerminatedQuery
  | Call_MergeListsWand bool
  | Call_MergeListsMaxScore bool

fun dispatch :: "QueryAlgorithm \<Rightarrow> evaluator option" where
  "dispatch kDaatAnd = Some Call_ProcessQuery"
| "dispatch kDaatOr = Some Call_ProcessQuery"
| "dispatch kDaatAndTopPositions = Some Call_ProcessQuery"
| "dispatch kDualLayeredOverlappingDaat = Some Call_ProcessLayeredQuery"
| "dispatch kDualLayeredOverlappingMergeDaat = Some Call_ProcessLayeredQuery"
| "dispatch kLayeredTaatOrEarlyTerminated = Some Call_ProcessLayeredTaatPrunedEarlyTerminatedQuery"
| "dispatch kWand = Some (Call_MergeListsWand False)"
| "dispatch kDualLayeredWand = Some (Call_MergeListsWand True)"
| "dispatch kMaxScore = Some (Call_MergeListsMaxScore False)"
| "dispatch kDualLayeredMaxScore = Some (Call_MergeListsMaxScore True)"
| "dispatch _ = None"

text \<open>
  \<open>isupper\<close>, \<open>tolower\<close> and the white space that \<open>operator>>\<close> of a stream skips, in the
  classic locale.  Characters are ordered by their code (\<open>Char_ord\<close>).
\<close>

definition isupper :: "char \<Rightarrow> bool" where
  "isupper c = (CHR ''A'' \<le> c \<and> c \<le> CHR ''Z'')"

definition tolower :: "char \<Rightarrow> char" where
  "tolower c = (if isupper c then char_of (of_char c + (32 :: nat)) else c)"

definition isspace :: "char \<Rightarrow> bool" where
  "isspace c = (c \<in> {CHR '' '', CHR 0x09, CHR 0x0A, CHR 0x0B, CHR 0x0C, CHR 0x0D})"

text \<open>
  The loop \<open>while (qss >> term)\<close>: each extraction skips leading white space and reads up to
  the next white space or the end of the line.  \<open>cur\<close> is the word read so far.
\<close>

fun read_words :: "string \<Rightarrow> string \<Rightarrow> string list" where
  "read_words cur [] = (if cur = [] then [] else [cur])"
| "read_words cur (c # cs) =
     (if isspace c then (if cur = [] then read_words [] cs else cur # read_words [] cs)
      else read_words (cur @ [c]) cs)"

text \<open>The body of that loop: a word is kept unless the stop list is non-empty and holds it.\<close>

definition apply_stop_list :: "string set \<Rightarrow> string list \<Rightarrow> string list" where
  "apply_stop_list stop_words ts =
     filter (\<lambda>t. if stop_words \<noteq> {} then t \<notin> stop_words else True) ts"

text \<open>
  \<open>sort(words.begin(), words.end())\<close> followed by \<open>words.erase(unique(...), words.end())\<close>:
  strings are compared lexicographically by character code, \<open>unique\<close> removes adjacent
  repetitions.
\<close>

definition sort_unique :: "string list \<Rightarrow> string list" where
  "sort_unique ws = remdups_adj (sort ws)"

definition query_words :: "string set \<Rightarrow> string \<Rightarrow> string list" where
  "query_words stop_words query_line =
     apply_stop_list stop_words (read_words [] (map tolower query_line))"

text \<open>
  What one call of \<open>ExecuteQuery\<close> does: it returns early on an empty query, stops at the
  failed assertion, reports zero results without calling an evaluator, or calls one
  evaluator on the array \<open>query_term_data\<close> with \<open>max_num_results_\<close> and shows what it returns.
\<close>

datatype ('l, 'r) query_outcome =
    NoQuery
  | AssertionFailed
  | ZeroResults
  | Evaluated evaluator "'l list" 'r

text \<open>
  The state of the query processor that \<open>ExecuteQuery\<close> reads.  The lexicon is the partial
  function \<open>Lexicon::GetEntry\<close> computes (\<open>None\<close> for \<open>NULL\<close>); the evaluators are the
  member functions named by \<open>evaluator\<close>, applied to \<open>query_term_data\<close> and
  \<open>max_num_results_\<close>.
\<close>

record ('l, 'r) query_processor =
  query_algorithm :: QueryAlgorithm
  stop_words :: "string set"
  max_num_results :: nat
  lexicon :: "string \<Rightarrow> 'l option"
  evaluators :: "evaluator \<Rightarrow> 'l list \<Rightarrow> nat \<Rightarrow> 'r"

definition ExecuteQuery :: "('l, 'r) query_processor \<Rightarrow> string \<Rightarrow> ('l, 'r) query_outcome" where
  "ExecuteQuery qp query_line =
     (let words = query_words (stop_words qp) query_line in
      if length words = 0 then NoQuery
      else
        let words = sort_unique words;
            num_query_terms = length words;
            semantics = processing_semantics (query_algorithm qp)
        in if semantics = kUndefined then AssertionFailed
           else
             let query_term_data = List.map_filter (lexicon qp) words;
                 curr_query_term_num = length query_term_data;
                 num_query_terms = (if semantics = kOr then curr_query_term_num else num_query_terms)
             in if curr_query_term_num = num_query_terms
                then (case dispatch (query_algorithm qp) of
                        None \<Rightarrow> AssertionFailed
                      | Some e \<Rightarrow>
                          Evaluated e query_term_data
                            (evaluators qp e query_term_data (max_num_results qp)))
                else ZeroResults)"

section \<open>Failures\<close>

text \<open>
  The ways a run of the layered index generator ends without a result: a fatal message of
  the error logger (\<open>Log(..., true)\<close>), a failed \<open>assert\<close>, and the division by zero.
\<close>

datatype error = FatalError | AssertionFailure | DivisionByZero

section \<open>The meta file of an index (meta\_file\_properties.h)\<close>









section \<open>The index a LayeredIndexGenerator reads, and its constructor (index\_layerify.cc)\<close>

text \<open>
  A posting of an inverted list: \<open>IndexEntry\<close>, without its positions (the generator asserts
  that the index has none).  A docID is a \<open>uint32_t\<close>, here a natural number below \<open>2^32\<close>.
\<close>

record IndexEntry =
  doc_id :: nat
  frequency :: nat



text \<open>
  The members of \<open>LayeredIndexGenerator\<close> that the constructor sets and \<open>WriteMetaFile\<close>
  reads.  The members are declared in index\_layerify.h, which is not among the sources; the
  counters are taken to hold every \<open>long\<close> the meta file gives.
\<close>

record LayeredIndexGenerator =
  includes_contexts :: bool
  includes_positions :: bool
  overlapping_layers :: bool
  num_layers :: int
  total_num_docs :: int
  total_unique_num_docs :: int
  total_document_lengths :: int
  document_posting_count :: int
  index_posting_count :: int
  first_doc_id_in_index :: int
  last_doc_id_in_index :: int


section \<open>LayeredIndexGenerator::CreateLayeredIndex (index\_layerify.cc)\<close>

text \<open>
  Modelled from the spec: \<open>CHUNK_SIZE\<close> is defined in a header that is not among the
  sources; a chunk holds up to 128 postings.  \<open>ChunkEncoder::kChunkSize\<close> is the same number
  (\<open>ChunkDecoder::kChunkSize\<close> is defined as \<open>CHUNK_SIZE\<close> in index\_reader.h).
\<close>

definition CHUNK_SIZE :: nat where
  "CHUNK_SIZE = 128"

text \<open>
  Modelled from the spec: the class \<open>DocIdScoreComparison\<close> is declared in index\_layerify.h,
  which is not among the sources.  Its \<open>Bm25Score\<close> is the BM25 partial score
  \<open>idf * (f * (k1 + 1)) / (f + k1 * (1 - b) + k1 * b * (doc_len / avg_doc_len))\<close> with
  \<open>k1 = 2\<close>, \<open>b = 0.75\<close> and \<open>idf = log10 (1 + (N - n + 0.5) / (n + 0.5))\<close>, where \<open>n\<close> is the
  number of postings of the list and \<open>doc_len\<close> comes from the document map; as a comparison
  object it sorts postings by descending score.
\<close>

definition Bm25Score :: "(nat \<Rightarrow> nat) \<Rightarrow> nat \<Rightarrow> int \<Rightarrow> int \<Rightarrow> IndexEntry \<Rightarrow> real" where
  "Bm25Score doc_len num_docs_in_list average_doc_length num_docs_in_collection e =
     log 10 (1 + (of_int num_docs_in_collection - real num_docs_in_list + 0.5) / (real num_docs_in_list + 0.5)) *
     (real (frequency e) * (2 + 1)) /
     (real (frequency e) + 2 * (1 - 0.75) +
      2 * 0.75 * (real (doc_len (doc_id e)) / of_int average_doc_length))"

definition DocIdScoreComparison :: "(IndexEntry \<Rightarrow> real) \<Rightarrow> IndexEntry \<Rightarrow> IndexEntry \<Rightarrow> bool" where
  "DocIdScoreComparison score l r = (score l > score r)"

text \<open>
  Modelled from the spec: \<open>IndexEntryDocIdComparison\<close> is declared in a header that is not
  among the sources; within a layer the postings are sorted by ascending docID.
\<close>

definition IndexEntryDocIdComparison :: "IndexEntry \<Rightarrow> IndexEntry \<Rightarrow> bool" where
  "IndexEntryDocIdComparison l r = (doc_id l < doc_id r)"

text \<open>
  The tables of \<open>CreateLayeredIndex\<close> and the number of postings the active strategy
  \<open>kPercentageFixedBounded\<close> proposes for layer \<open>i\<close> (the two other strategies are not
  selected anywhere).  The code computes \<open>(layer_percentages[i] / 100.0) * total_num_postings\<close>
  in double precision and truncates; the model computes the truncated quotient exactly.
\<close>

definition layer_percentages :: "nat list" where
  "layer_percentages = [5, 5, 10, 15, 25, 40, 0, 0]"

definition layer_max_sizes :: "nat list" where
  "layer_max_sizes = [1024, 8192, 0, 0, 0, 0, 0, 0]"


definition proposed_layer_size :: "nat \<Rightarrow> nat \<Rightarrow> nat" where
  "proposed_layer_size i total_num_postings =
     (let num_postings_curr_layer = (layer_percentages ! i * total_num_postings) div 100
      in if layer_max_sizes ! i \<noteq> 0 then min num_postings_curr_layer (layer_max_sizes ! i)
         else num_postings_curr_layer)"

text \<open>
  The \<open>do ... while (true)\<close> loop that moves the layer boundary: it returns
  \<open>num_postings_curr_layer\<close> and \<open>num_postings_left\<close>.  \<open>last_layer\<close> is the test
  \<open>i == num_layers_ - 1\<close>.
\<close>

function fix_layer_boundary ::
  "(IndexEntry \<Rightarrow> real) \<Rightarrow> IndexEntry list \<Rightarrow> nat \<Rightarrow> bool \<Rightarrow> nat \<Rightarrow> nat \<Rightarrow> nat \<times> nat" where
  "fix_layer_boundary score index_entry_buffer total_num_postings last_layer
       num_postings_curr_layer num_postings_left =
     (if last_layer \<or> num_postings_left \<le> 0 then (num_postings_curr_layer, num_postings_left)
      else
        let curr_layer_threshold_idx = total_num_postings - num_postings_left - num_postings_curr_layer;
            next_layer_threshold_idx = total_num_postings - num_postings_left;
            curr_layer_threshold = score (index_entry_buffer ! curr_layer_threshold_idx);
            next_layer_threshold = score (index_entry_buffer ! next_layer_threshold_idx)
        in if curr_layer_threshold \<le> next_layer_threshold
           then fix_layer_boundary score index_entry_buffer total_num_postings last_layer
                  (num_postings_curr_layer + 1) (num_postings_left - 1)
           else (num_postings_curr_layer, num_postings_left))"
  by pat_completeness auto
termination
  by (relation "measure (\<lambda>(score, buf, total_num_postings, last_layer, c, l). l)") auto

text \<open>
  Modelled from the spec: \<open>ChunkEncoder\<close> is not among the sources.  A chunk as \<open>DumpToIndex\<close>
  hands it to the index builder has the docID gaps and the frequencies of up to 128 postings,
  its maximal score, and its last docID, which is the last docID of the chunk before it
  (\<open>prev_chunk_last_doc_id\<close>) plus the gaps of the chunk, in 32 bits.
\<close>

record Chunk =
  chunk_doc_ids :: "nat list"
  chunk_frequencies :: "nat list"
  chunk_last_doc_id :: nat
  chunk_max_score :: real

text \<open>
  The inner loop of \<open>DumpToIndex\<close> over the postings of one chunk: the gaps
  \<open>curr_index_entry.doc_id - prev_doc_id\<close> (a subtraction of \<open>uint32_t\<close> values) and the
  assertion that a gap is zero only for a first posting with docID 0.
\<close>

fun chunk_doc_id_gaps :: "IndexEntry list \<Rightarrow> nat \<Rightarrow> nat \<Rightarrow> error + nat list" where
  "chunk_doc_id_gaps [] index_entries_offset prev_doc_id = Inr []"
| "chunk_doc_id_gaps (curr_index_entry # es) index_entries_offset prev_doc_id =
     (let gap = nat ((int (doc_id curr_index_entry) - int prev_doc_id) mod 4294967296)
      in if gap \<noteq> 0 \<or> (index_entries_offset = 0 \<and> doc_id curr_index_entry = 0)
         then (case chunk_doc_id_gaps es (index_entries_offset + 1) (doc_id curr_index_entry) of
                 Inl err \<Rightarrow> Inl err
               | Inr gaps \<Rightarrow> Inr (gap # gaps))
         else Inl AssertionFailure)"

text \<open>
  \<open>DumpToIndex\<close>, on the postings from \<open>index_entries_offset\<close> on.  It returns the chunks it
  adds to the index builder and the array as it leaves it: for the maximal score of a chunk,
  \<open>GetChunkMaxScore\<close> sorts the postings of the chunk by score in place, after the chunk has
  been encoded.
\<close>

function DumpToIndex ::
  "(IndexEntry \<Rightarrow> real) \<Rightarrow> IndexEntry list \<Rightarrow> nat \<Rightarrow> nat \<Rightarrow> nat \<Rightarrow>
     error + (Chunk list \<times> IndexEntry list)" where
  "DumpToIndex score index_entries index_entries_offset prev_chunk_last_doc_id prev_doc_id =
     (if index_entries = [] then Inr ([], [])
      else
        let chunk_entries = take CHUNK_SIZE index_entries
        in case chunk_doc_id_gaps chunk_entries index_entries_offset prev_doc_id of
             Inl err \<Rightarrow> Inl err
           | Inr doc_ids \<Rightarrow>
               let sorted_entries = std_sort (DocIdScoreComparison score) chunk_entries;
                   chunk = \<lparr> chunk_doc_ids = doc_ids,
                             chunk_frequencies = map frequency chunk_entries,
                             chunk_last_doc_id = nat (int (prev_chunk_last_doc_id + sum_list doc_ids) mod 4294967296),
                             chunk_max_score = score (hd sorted_entries) \<rparr>
               in case DumpToIndex score (drop CHUNK_SIZE index_entries)
                         (index_entries_offset + length chunk_entries)
                         (chunk_last_doc_id chunk) (doc_id (last chunk_entries)) of
                    Inl err \<Rightarrow> Inl err
                  | Inr (chunks, entries_left) \<Rightarrow> Inr (chunk # chunks, sorted_entries @ entries_left))"
  by pat_completeness auto
termination
  by (relation "measure (\<lambda>(score, index_entries, offset, prev_last, prev). length index_entries)")
     (auto simp: CHUNK_SIZE_def)

text \<open>
  The body of the loop over the layers of one term, from layer \<open>i\<close> on.  The result is the
  list of the layers written, each with the postings passed to \<open>DumpToIndex\<close>, the chunks
  added to the index builder and the threshold passed to \<open>FinalizeLayer\<close>.
  (\<open>kOverlappingLayerThresholdIncludesAllDocs\<close> is \<open>false\<close>, so the threshold is never
  replaced by that of the first layer.)
\<close>

function layers_from ::
  "(IndexEntry \<Rightarrow> real) \<Rightarrow> bool \<Rightarrow> nat \<Rightarrow> nat \<Rightarrow> nat \<Rightarrow> nat \<Rightarrow> IndexEntry list \<Rightarrow>
     error + (IndexEntry list \<times> Chunk list \<times> real) list" where
  "layers_from score overlapping num_layers_cfg total_num_postings i num_postings_left index_entry_buffer =
     (if \<not> i < num_layers_cfg \<or> num_postings_left \<le> 0 then Inr []
      else
        let kLayerMinSize = CHUNK_SIZE;
            num_postings_curr_layer = proposed_layer_size i total_num_postings;
            num_postings_curr_layer = min num_postings_curr_layer num_postings_left;
            num_postings_curr_layer =
              (if num_postings_curr_layer < kLayerMinSize \<and> num_postings_left \<ge> kLayerMinSize
               then kLayerMinSize else num_postings_curr_layer);
            num_postings_left = num_postings_left - num_postings_curr_layer;
            (num_postings_curr_layer, num_postings_left) =
              (if i = num_layers_cfg - 1 \<and> num_postings_left > 0
               then (num_postings_curr_layer + num_postings_left, 0)
               else (num_postings_curr_layer, num_postings_left));
            (num_postings_curr_layer, num_postings_left) =
              fix_layer_boundary score index_entry_buffer total_num_postings (i = num_layers_cfg - 1)
                num_postings_curr_layer num_postings_left
        in if \<not> num_postings_curr_layer > 0 then Inl AssertionFailure
           else
             let curr_layer_start = total_num_postings - num_postings_left - num_postings_curr_layer;
                 layer_start = (if overlapping then 0 else curr_layer_start);
                 layer_end = curr_layer_start + num_postings_curr_layer;
                 score_threshold = score (index_entry_buffer ! curr_layer_start);
                 layer = std_sort IndexEntryDocIdComparison
                           (drop layer_start (take layer_end index_entry_buffer))
             in case DumpToIndex score layer 0 0 0 of
                  Inl err \<Rightarrow> Inl err
                | Inr (chunks, dumped) \<Rightarrow>
                    let index_entry_buffer =
                          take layer_start index_entry_buffer @ dumped @ drop layer_end index_entry_buffer
                    in case layers_from score overlapping num_layers_cfg total_num_postings (i + 1)
                              num_postings_left index_entry_buffer of
                         Inl err \<Rightarrow> Inl err
                       | Inr layers \<Rightarrow> Inr ((layer, chunks, score_threshold) # layers))"
  by pat_completeness auto
termination
  by (relation "measure (\<lambda>(score, overlapping, num_layers_cfg, total_num_postings, i, l, buf).
        num_layers_cfg - i)") auto

text \<open>
  The layers \<open>CreateLayeredIndex\<close> writes for one term whose postings, in the order of the
  input list, are \<open>index_entries\<close>: the buffer is sorted by score, then split.
\<close>

definition CreateLayeredIndex_term ::
  "(IndexEntry \<Rightarrow> real) \<Rightarrow> bool \<Rightarrow> nat \<Rightarrow> IndexEntry list \<Rightarrow>
     error + (IndexEntry list \<times> Chunk list \<times> real) list" where
  "CreateLayeredIndex_term score overlapping num_layers_cfg index_entries =
     (let index_entry_buffer = std_sort (DocIdScoreComparison score) index_entries;
          total_num_postings = length index_entries
      in layers_from score overlapping num_layers_cfg total_num_postings 0 total_num_postings
           index_entry_buffer)"











section \<open>Invariants used in the proofs\<close>

text \<open>
  The first \<open>n\<close> elements of \<open>a\<close> are a heap for \<open>greater\<close>: no element is smaller than its parent,
  so the smallest is at index 0.
\<close>

definition min_heap :: "'a :: linorder list \<Rightarrow> nat \<Rightarrow> bool" where
  "min_heap a n = (\<forall>i. 0 < i \<and> i < n \<longrightarrow> a ! ((i - 1) div 2) \<le> a ! i)"

text \<open>
  The state of \<open>__push_heap\<close> while the value \<open>v\<close> moves up: the heap order holds everywhere but
  at the hole \<open>h\<close>, whose children are at least \<open>v\<close> and at least the parent of the hole.
\<close>

definition hole_up :: "'a :: linorder list \<Rightarrow> nat \<Rightarrow> nat \<Rightarrow> 'a \<Rightarrow> bool" where
  "hole_up a n h v =
     (h < n \<and> n \<le> length a \<and>
      (\<forall>i. 0 < i \<and> i < n \<and> i \<noteq> h \<longrightarrow> a ! ((i - 1) div 2) \<le> a ! i) \<and>
      (\<forall>c. 0 < c \<and> c < n \<and> (c - 1) div 2 = h \<longrightarrow> v \<le> a ! c \<and> (0 < h \<longrightarrow> a ! ((h - 1) div 2) \<le> a ! c)))"

text \<open>
  The state of the first loop of \<open>__adjust_heap\<close> while the hole \<open>h\<close> moves down: the heap order
  holds everywhere but at the hole, whose children are at least its parent.
\<close>

definition hole_down :: "'a :: linorder list \<Rightarrow> nat \<Rightarrow> nat \<Rightarrow> bool" where
  "hole_down a len h =
     (h < len \<and> len \<le> length a \<and>
      (\<forall>i. 0 < i \<and> i < len \<and> i \<noteq> h \<longrightarrow> a ! ((i - 1) div 2) \<le> a ! i) \<and>
      (\<forall>c. 0 < c \<and> c < len \<and> (c - 1) div 2 = h \<and> 0 < h \<longrightarrow> a ! ((h - 1) div 2) \<le> a ! c))"

text \<open>
  The state of the array after \<open>j\<close> calls of \<open>KthScore\<close> with the scores \<open>seen\<close>: its first
  \<open>min j k\<close> elements are a heap and hold the largest of the scores seen; \<open>R\<close> are the others.
\<close>

definition kth_inv :: "nat \<Rightarrow> real list \<Rightarrow> nat \<Rightarrow> real list \<Rightarrow> bool" where
  "kth_inv k a j seen =
     (k \<le> length a \<and> length seen = j \<and> min_heap a (min j k) \<and>
      (\<exists>R. mset seen = mset (take (min j k) a) + R \<and>
           (\<forall>r \<in># R. \<forall>h \<in> set (take (min j k) a). r \<le> h) \<and>
           (j < k \<longrightarrow> R = {#})))"

text \<open>
  The first part of the body of the loop over the layers in \<open>CreateLayeredIndex\<close>, up to the
  end of the \<open>do ... while\<close> loop: the number of postings of the current layer and the number
  of postings left.
\<close>

definition layer_split ::
  "(IndexEntry \<Rightarrow> real) \<Rightarrow> IndexEntry list \<Rightarrow> nat \<Rightarrow> nat \<Rightarrow> nat \<Rightarrow> nat \<Rightarrow> nat \<times> nat" where
  "layer_split score index_entry_buffer num_layers_cfg total_num_postings i num_postings_left =
     (let kLayerMinSize = CHUNK_SIZE;
          num_postings_curr_layer = proposed_layer_size i total_num_postings;
          num_postings_curr_layer = min num_postings_curr_layer num_postings_left;
          num_postings_curr_layer =
            (if num_postings_curr_layer < kLayerMinSize \<and> num_postings_left \<ge> kLayerMinSize
             then kLayerMinSize else num_postings_curr_layer);
          num_postings_left = num_postings_left - num_postings_curr_layer;
          (num_postings_curr_layer, num_postings_left) =
            (if i = num_layers_cfg - 1 \<and> num_postings_left > 0
             then (num_postings_curr_layer + num_postings_left, 0)
             else (num_postings_curr_layer, num_postings_left))
      in fix_layer_boundary score index_entry_buffer total_num_postings (i = num_layers_cfg - 1)
           num_postings_curr_layer num_postings_left)"

text \<open>The number of postings of a list of chunks, and of the chunks of a list of layers.\<close>

definition num_postings_added :: "Chunk list \<Rightarrow> nat" where
  "num_postings_added chunks = sum_list (map (\<lambda>chunk. length (chunk_doc_ids chunk)) chunks)"


section \<open>Small inputs used to instantiate the theorems\<close>

text \<open>
  A query processor over a lexicon of two terms, with a stop list of two words; its entries
  are numbers and its evaluators return the first \<open>k\<close> entries of \<open>query_term_data\<close>.
\<close>

definition toy_query_processor :: "(nat, nat list) query_processor" where
  "toy_query_processor =
     \<lparr> query_algorithm = kDaatOr, stop_words = {''the'', ''of''}, max_num_results = 10,
       lexicon = [''alpha'' \<mapsto> 1, ''beta'' \<mapsto> 2], evaluators = (\<lambda>e ts k. take k ts) \<rparr>"






text \<open>
  A list of 40 postings in documents of length 2, in a collection of 404 documents of average
  length 2: one posting with frequency 3, two with frequency 2 and 37 with frequency 1.
  \<open>tied_score\<close> is the BM25 score of a posting of this list (the factor \<open>idf\<close> is
  \<open>log10 10 = 1\<close>): \<open>9/5\<close>, \<open>3/2\<close> and \<open>1\<close> for the three frequencies.
\<close>

definition tied_postings :: "IndexEntry list" where
  "tied_postings =
     \<lparr>doc_id = 1, frequency = 3\<rparr> # \<lparr>doc_id = 2, frequency = 2\<rparr> # \<lparr>doc_id = 3, frequency = 2\<rparr> #
     map (\<lambda>d. \<lparr>doc_id = d, frequency = 1\<rparr>) [4 ..< 41]"

definition tied_score :: "IndexEntry \<Rightarrow> real" where
  "tied_score e = real (frequency e) * 3 / (real (frequency e) + 2)"

chapter \<open>Properties\<close>

section \<open>The heap operations keep a heap\<close>

declare push_heap_loop.simps [simp del]

declare adjust_heap_loop.simps [simp del]

lemma push_heap_loop_length [simp]:
  "length (push_heap_loop cmp a h t v) = length a"
proof (induction cmp a h t v rule: push_heap_loop.induct)
  case (1 cmp a h t v)
  show ?case
    using 1 by (subst push_heap_loop.simps) (simp add: Let_def)
qed

lemma push_heap_loop_above:
  "h < i \<Longrightarrow> push_heap_loop cmp a h t v ! i = a ! i"
proof (induction cmp a h t v rule: push_heap_loop.induct)
  case (1 cmp a h t v)
  show ?case
  proof (cases "h > t \<and> cmp (a ! ((h - 1) div 2)) v")
    case True
    then have "(h - 1) div 2 < i" using "1.prems" by linarith
    with True "1.IH"[OF refl True] "1.prems" show ?thesis
      by (subst push_heap_loop.simps) (simp add: Let_def)
  next
    case False
    with "1.prems" show ?thesis
      by (subst push_heap_loop.simps) (auto simp add: Let_def)
  qed
qed

lemma mset_update_swap:
  assumes "h < length a" "p < length a" "p \<noteq> h"
  shows "mset (a[h := a ! p, p := v]) = mset (a[h := v])"
proof -
  let ?ls = "a[h := v]"
  have "mset (?ls[p := ?ls ! h, h := ?ls ! p]) = mset ?ls"
    using assms by (intro mset_swap) simp_all
  moreover have "?ls[p := ?ls ! h, h := ?ls ! p] = a[h := a ! p, p := v]"
    using assms by (intro nth_equalityI) (auto simp: nth_list_update)
  ultimately show ?thesis by simp
qed

lemma push_heap_loop_mset:
  "h < length a \<Longrightarrow> mset (push_heap_loop cmp a h t v) = mset (a[h := v])"
proof (induction cmp a h t v rule: push_heap_loop.induct)
  case (1 cmp a h t v)
  show ?case
  proof (cases "h > t \<and> cmp (a ! ((h - 1) div 2)) v")
    case True
    let ?p = "(h - 1) div 2"
    have p: "?p < h" using True by linarith
    have "mset (push_heap_loop cmp a h t v) = mset (push_heap_loop cmp (a[h := a ! ?p]) ?p t v)"
      using True by (subst push_heap_loop.simps) (simp add: Let_def)
    also have "\<dots> = mset (a[h := a ! ?p, ?p := v])"
      using "1.IH"[OF refl True] p "1.prems" by simp
    also have "\<dots> = mset (a[h := v])"
      using p "1.prems" by (intro mset_update_swap) simp_all
    finally show ?thesis .
  next
    case False
    then show ?thesis
      by (subst push_heap_loop.simps) (auto simp add: Let_def)
  qed
qed

lemma min_heap_root:
  assumes "min_heap a n" "i < n"
  shows "a ! 0 \<le> a ! i"
  using assms(2)
proof (induction i rule: less_induct)
  case (less i)
  show ?case
  proof (cases "i = 0")
    case True
    then show ?thesis by simp
  next
    case False
    then have "(i - 1) div 2 < i" by linarith
    moreover have "a ! ((i - 1) div 2) \<le> a ! i"
      using assms(1) False less.prems by (simp add: min_heap_def)
    ultimately show ?thesis
      using less.IH[of "(i - 1) div 2"] less.prems by force
  qed
qed

lemma push_heap_loop_heap_aux:
  "hole_up a n h v \<Longrightarrow> cmp = greater \<Longrightarrow> t = 0 \<Longrightarrow> min_heap (push_heap_loop cmp a h t v) n"
proof (induction cmp a h t v rule: push_heap_loop.induct)
  case (1 cmp a h t v)
  note [simp] = \<open>cmp = greater\<close> \<open>t = 0\<close>
  let ?p = "(h - 1) div 2"
  show ?case
  proof (cases "h > 0 \<and> greater (a ! ?p) v")
    case True
    then have p: "?p < h" and gt: "v < a ! ?p"
      by (auto simp: greater_def)
    have hn: "h < n" "n \<le> length a" using "1.prems" by (auto simp: hole_up_def)
    have inv: "hole_up (a[h := a ! ?p]) n ?p v"
      unfolding hole_up_def
    proof (intro conjI allI impI)
      show "?p < n" using p hn by simp
      show "n \<le> length (a[h := a ! ?p])" using hn by simp
    next
      fix i assume i: "0 < i \<and> i < n \<and> i \<noteq> ?p"
      show "a[h := a ! ?p] ! ((i - 1) div 2) \<le> a[h := a ! ?p] ! i"
      proof (cases "i = h")
        case True
        then show ?thesis using hn p by simp
      next
        case ih: False
        show ?thesis
        proof (cases "(i - 1) div 2 = h")
          case True
          then have "a ! ?p \<le> a ! i"
            using "1.prems" i \<open>0 < h \<and> greater (a ! ?p) v\<close> by (auto simp: hole_up_def)
          then show ?thesis using True ih hn i by simp
        next
          case False
          then show ?thesis using "1.prems" i ih hn by (auto simp: hole_up_def)
        qed
      qed
    next
      fix c assume c: "0 < c \<and> c < n \<and> (c - 1) div 2 = ?p"
      have pp: "?p \<noteq> h" using p by simp
      show "v \<le> a[h := a ! ?p] ! c"
      proof (cases "c = h")
        case True
        then show ?thesis using gt hn by simp
      next
        case False
        then have "a ! ?p \<le> a ! c" using "1.prems" c by (auto simp: hole_up_def)
        then show ?thesis using False gt hn by simp
      qed
    next
      fix c assume c: "0 < c \<and> c < n \<and> (c - 1) div 2 = ?p" and p0: "0 < ?p"
      have le1: "a ! ((?p - 1) div 2) \<le> a ! ?p"
        using "1.prems" p p0 hn by (auto simp: hole_up_def)
      have "(?p - 1) div 2 \<noteq> h" using p p0 by linarith
      then have l: "a[h := a ! ?p] ! ((?p - 1) div 2) = a ! ((?p - 1) div 2)" by simp
      show "a[h := a ! ?p] ! ((?p - 1) div 2) \<le> a[h := a ! ?p] ! c"
      proof (cases "c = h")
        case True
        then show ?thesis using le1 l hn by simp
      next
        case False
        then have "a ! ?p \<le> a ! c" using "1.prems" c by (auto simp: hole_up_def)
        then show ?thesis using False le1 l by simp
      qed
    qed
    have "min_heap (push_heap_loop greater (a[h := a ! ?p]) ?p 0 v) n"
      using "1.IH"[OF refl _ inv] True by simp
    then show ?thesis
      using True by (subst push_heap_loop.simps) (simp add: Let_def)
  next
    case False
    have hn: "h < n" "n \<le> length a" using "1.prems" by (auto simp: hole_up_def)
    have res: "push_heap_loop greater a h 0 v = a[h := v]"
      using False by (subst push_heap_loop.simps) (auto simp add: Let_def)
    have "min_heap (a[h := v]) n"
      unfolding min_heap_def
    proof (intro allI impI)
      fix i assume i: "0 < i \<and> i < n"
      show "a[h := v] ! ((i - 1) div 2) \<le> a[h := v] ! i"
      proof (cases "i = h")
        case True
        then have "(i - 1) div 2 \<noteq> h" using i by linarith
        moreover have "a ! ?p \<le> v" using False i True by (auto simp: greater_def)
        ultimately show ?thesis using True hn by simp
      next
        case ih: False
        show ?thesis
        proof (cases "(i - 1) div 2 = h")
          case True
          then have "v \<le> a ! i" using "1.prems" i by (auto simp: hole_up_def)
          then show ?thesis using True ih hn by simp
        next
          case False
          then show ?thesis using "1.prems" i ih by (auto simp: hole_up_def)
        qed
      qed
    qed
    then show ?thesis by (simp add: res)
  qed
qed

lemma push_heap_loop_heap:
  "hole_up a n h v \<Longrightarrow> min_heap (push_heap_loop greater a h 0 v) n"
  by (rule push_heap_loop_heap_aux) simp_all

lemma hole_down_step:
  assumes inv: "hole_down a len h"
    and c: "0 < c" "c < len" "(c - 1) div 2 = h"
    and least: "\<And>s. 0 < s \<Longrightarrow> s < len \<Longrightarrow> (s - 1) div 2 = h \<Longrightarrow> a ! c \<le> a ! s"
  shows "hole_down (a[h := a ! c]) len c"
  unfolding hole_down_def
proof (intro conjI allI impI)
  have hn: "h < len" "len \<le> length a" using inv by (auto simp: hole_down_def)
  have hc: "h < c" using c by linarith
  show "c < len" by fact
  show "len \<le> length (a[h := a ! c])" using hn by simp
  {
    fix i assume i: "0 < i \<and> i < len \<and> i \<noteq> c"
    show "a[h := a ! c] ! ((i - 1) div 2) \<le> a[h := a ! c] ! i"
    proof (cases "i = h")
      case True
      then have "(i - 1) div 2 \<noteq> h" using i by linarith
      moreover have "a ! ((h - 1) div 2) \<le> a ! c"
        using inv c i True by (auto simp: hole_down_def)
      ultimately show ?thesis using True hn by simp
    next
      case ih: False
      show ?thesis
      proof (cases "(i - 1) div 2 = h")
        case True
        then have "a ! c \<le> a ! i" using least i by simp
        then show ?thesis using True ih hn by simp
      next
        case False
        then show ?thesis using inv i ih by (auto simp: hole_down_def)
      qed
    qed
  }
  {
    fix g assume g: "0 < g \<and> g < len \<and> (g - 1) div 2 = c \<and> 0 < c"
    then have gh: "g \<noteq> h" using hc by linarith
    have "a ! c \<le> a ! g" using inv g gh by (auto simp: hole_down_def)
    then show "a[h := a ! c] ! ((c - 1) div 2) \<le> a[h := a ! c] ! g"
      using c gh hn by simp
  }
qed

lemma adjust_heap_loop_step:
  fixes a :: "'a :: linorder list"
  assumes "h < (len - 1) div 2"
  shows "\<exists>c. 0 < c \<and> c < len \<and> (c - 1) div 2 = h \<and>
           (\<forall>s. 0 < s \<and> s < len \<and> (s - 1) div 2 = h \<longrightarrow> a ! c \<le> a ! s) \<and>
           adjust_heap_loop greater a h len = adjust_heap_loop greater (a[h := a ! c]) c len"
proof -
  define sc where "sc = 2 * (h + 1)"
  define c where "c = (if greater (a ! sc) (a ! (sc - 1)) then sc - 1 else sc)"
  have sc: "sc < len" "sc - 1 < len" "(sc - 1) div 2 = h" "(sc - 1 - 1) div 2 = h" "0 < sc - 1"
    using assms by (auto simp: sc_def)
  have c: "0 < c" "c < len" "(c - 1) div 2 = h"
    using sc by (auto simp: c_def)
  have least: "a ! c \<le> a ! s" if "0 < s \<and> s < len \<and> (s - 1) div 2 = h" for s
  proof -
    have "s = sc \<or> s = sc - 1" using that by (auto simp: sc_def)
    then show ?thesis by (auto simp: c_def greater_def)
  qed
  have step: "adjust_heap_loop greater a h len = adjust_heap_loop greater (a[h := a ! c]) c len"
    using assms by (subst adjust_heap_loop.simps) (simp add: Let_def sc_def c_def)
  show ?thesis
    using c least step by blast
qed

lemma adjust_heap_loop_stop:
  "\<not> h < (len - 1) div 2 \<Longrightarrow> adjust_heap_loop cmp a h len = (a, h)"
  by (subst adjust_heap_loop.simps) simp

lemma adjust_heap_loop_inv:
  "hole_down a len h \<Longrightarrow>
     hole_down (fst (adjust_heap_loop greater a h len)) len (snd (adjust_heap_loop greater a h len)) \<and>
     \<not> snd (adjust_heap_loop greater a h len) < (len - 1) div 2"
proof (induction "len - h" arbitrary: a h rule: less_induct)
  case less
  show ?case
  proof (cases "h < (len - 1) div 2")
    case True
    from adjust_heap_loop_step[OF True, of a] obtain c where
      c: "0 < c" "c < len" "(c - 1) div 2 = h"
      and least: "\<And>s. 0 < s \<Longrightarrow> s < len \<Longrightarrow> (s - 1) div 2 = h \<Longrightarrow> a ! c \<le> a ! s"
      and step: "adjust_heap_loop greater a h len = adjust_heap_loop greater (a[h := a ! c]) c len"
      by blast
    have inv: "hole_down (a[h := a ! c]) len c"
      using less.prems c least by (rule hole_down_step)
    have "len - c < len - h" using c by linarith
    then show ?thesis
      unfolding step using less.hyps inv by blast
  next
    case False
    then show ?thesis using less.prems by (simp add: adjust_heap_loop_stop)
  qed
qed

lemma adjust_heap_loop_length [simp]:
  "length (fst (adjust_heap_loop greater (a :: 'a :: linorder list) h len)) = length a"
proof (induction "len - h" arbitrary: a h rule: less_induct)
  case less
  show ?case
  proof (cases "h < (len - 1) div 2")
    case True
    from adjust_heap_loop_step[OF True, of a] obtain c where
      c: "0 < c" "c < len" "(c - 1) div 2 = h"
      and step: "adjust_heap_loop greater a h len = adjust_heap_loop greater (a[h := a ! c]) c len"
      by blast
    have "len - c < len - h" using c by linarith
    then show ?thesis
      unfolding step using less.hyps[of c "a[h := a ! c]"] by simp
  next
    case False
    then show ?thesis by (simp add: adjust_heap_loop_stop)
  qed
qed

lemma adjust_heap_loop_above:
  "len \<le> i \<Longrightarrow> h < len \<Longrightarrow>
     fst (adjust_heap_loop greater (a :: 'a :: linorder list) h len) ! i = a ! i"
proof (induction "len - h" arbitrary: a h rule: less_induct)
  case less
  show ?case
  proof (cases "h < (len - 1) div 2")
    case True
    from adjust_heap_loop_step[OF True, of a] obtain c where
      c: "0 < c" "c < len" "(c - 1) div 2 = h"
      and step: "adjust_heap_loop greater a h len = adjust_heap_loop greater (a[h := a ! c]) c len"
      by blast
    have "len - c < len - h" using c by linarith
    then show ?thesis
      unfolding step using less.hyps[of c "a[h := a ! c]"] less.prems c by simp
  next
    case False
    then show ?thesis by (simp add: adjust_heap_loop_stop)
  qed
qed

lemma adjust_heap_loop_mset:
  "h < len \<Longrightarrow> len \<le> length a \<Longrightarrow>
     mset ((fst (adjust_heap_loop greater (a :: 'a :: linorder list) h len))
             [snd (adjust_heap_loop greater a h len) := x]) =
     mset (a[h := x])"
proof (induction "len - h" arbitrary: a h rule: less_induct)
  case less
  show ?case
  proof (cases "h < (len - 1) div 2")
    case True
    from adjust_heap_loop_step[OF True, of a] obtain c where
      c: "0 < c" "c < len" "(c - 1) div 2 = h"
      and step: "adjust_heap_loop greater a h len = adjust_heap_loop greater (a[h := a ! c]) c len"
      by blast
    have hc: "h < c" using c by linarith
    have "len - c < len - h" using c less.prems by linarith
    then have "mset ((fst (adjust_heap_loop greater (a[h := a ! c]) c len))
                 [snd (adjust_heap_loop greater (a[h := a ! c]) c len) := x]) =
               mset (a[h := a ! c, c := x])"
      using less.hyps[of c "a[h := a ! c]"] c less.prems by simp
    also have "\<dots> = mset (a[h := x])"
      using hc c less.prems by (intro mset_update_swap) simp_all
    finally show ?thesis unfolding step .
  next
    case False
    then show ?thesis by (simp add: adjust_heap_loop_stop)
  qed
qed

lemma hole_down_leaf_up:
  assumes "hole_down a len h" "\<And>c. 0 < c \<Longrightarrow> c < len \<Longrightarrow> (c - 1) div 2 \<noteq> h"
  shows "hole_up a len h v"
  using assms unfolding hole_down_def hole_up_def by blast

lemma mset_take_eq:
  assumes "length r = length a" "\<And>i. n \<le> i \<Longrightarrow> i < length a \<Longrightarrow> r ! i = a ! i" "mset r = mset a"
  shows "mset (take n r) = mset (take n a)"
proof -
  have "drop n r = drop n a"
    using assms(1,2) by (intro nth_equalityI) simp_all
  moreover have "mset (take n r) + mset (drop n r) = mset (take n a) + mset (drop n a)"
    using assms(3) by (metis append_take_drop_id mset_append)
  ultimately show ?thesis by simp
qed

lemma adjust_heap_root:
  fixes a :: "'a :: linorder list"
  assumes inv: "hole_down a len 0"
  shows "min_heap (adjust_heap greater a 0 len v) len"
    and "mset (adjust_heap greater a 0 len v) = mset (a[0 := v])"
    and "length (adjust_heap greater a 0 len v) = length a"
    and "\<And>i. len \<le> i \<Longrightarrow> adjust_heap greater a 0 len v ! i = a ! i"
proof -
  define a1 where "a1 = fst (adjust_heap_loop greater a 0 len)"
  define h1 where "h1 = snd (adjust_heap_loop greater a 0 len)"
  define special where "special = (len mod 2 = 0 \<and> 2 \<le> len \<and> h1 = (len - 2) div 2)"
  define a2 where "a2 = (if special then a1[h1 := a1 ! (2 * (h1 + 1) - 1)] else a1)"
  define h2 where "h2 = (if special then 2 * (h1 + 1) - 1 else h1)"
  have len: "0 < len" "len \<le> length a" using inv by (auto simp: hole_down_def)
  have res: "adjust_heap greater a 0 len v = push_heap_loop greater a2 h2 0 v"
    by (simp add: adjust_heap_def Let_def split_beta a1_def h1_def special_def a2_def h2_def)
  have inv1: "hole_down a1 len h1" and stop: "\<not> h1 < (len - 1) div 2"
    using adjust_heap_loop_inv[OF inv] by (simp_all add: a1_def h1_def)
  have h1: "h1 < len" and l1: "length a1 = length a"
    using inv1 by (simp_all add: hole_down_def a1_def)
  have inv2: "hole_down a2 len h2"
  proof (cases special)
    case True
    have "hole_down (a1[h1 := a1 ! (len - 1)]) len (len - 1)"
    proof (rule hole_down_step[OF inv1])
      show "0 < len - 1" "len - 1 < len" "(len - 1 - 1) div 2 = h1"
        using True by (auto simp: special_def)
      fix s assume "0 < s" "s < len" "(s - 1) div 2 = h1"
      then have "s = len - 1" using True unfolding special_def by presburger
      then show "a1 ! (len - 1) \<le> a1 ! s" by simp
    qed
    moreover have "2 * (h1 + 1) - 1 = len - 1"
      using True unfolding special_def by presburger
    ultimately show ?thesis using True by (simp add: a2_def h2_def)
  next
    case False
    then show ?thesis using inv1 by (simp add: a2_def h2_def)
  qed
  have leaf: "(c - 1) div 2 \<noteq> h2" if "0 < c" "c < len" for c
  proof (cases special)
    case True
    then have "h2 = len - 1" unfolding h2_def special_def by presburger
    then show ?thesis using that by linarith
  next
    case False
    then have "h2 = h1" by (simp add: h2_def)
    then show ?thesis using that stop False unfolding special_def by presburger
  qed
  have h2: "h2 < len" and l2: "length a2 = length a"
    using inv2 l1 by (auto simp: hole_down_def a2_def)
  show "min_heap (adjust_heap greater a 0 len v) len"
    unfolding res using hole_down_leaf_up[OF inv2 leaf] by (rule push_heap_loop_heap)
  show "length (adjust_heap greater a 0 len v) = length a"
    unfolding res using l2 by simp
  have m1: "mset (a1[h1 := x]) = mset (a[0 := x])" for x
    using adjust_heap_loop_mset[of 0 len a x] len by (simp add: a1_def h1_def)
  have "mset (a2[h2 := v]) = mset (a[0 := v])"
  proof (cases special)
    case True
    define c where "c = 2 * (h1 + 1) - 1"
    have c: "c < length a1" "c \<noteq> h1"
      using True l1 len unfolding c_def special_def by presburger+
    have "mset (a1[h1 := a1 ! c, c := v]) = mset (a1[h1 := v])"
      using c h1 l1 len by (intro mset_update_swap) simp_all
    then show ?thesis using True m1 by (simp add: a2_def h2_def c_def)
  next
    case False
    then show ?thesis using m1 by (simp add: a2_def h2_def)
  qed
  then show "mset (adjust_heap greater a 0 len v) = mset (a[0 := v])"
    unfolding res using push_heap_loop_mset[of h2 a2 greater 0 v] h2 l2 len by simp
  fix i assume i: "len \<le> i"
  have "push_heap_loop greater a2 h2 0 v ! i = a2 ! i"
    using i h2 by (intro push_heap_loop_above) simp
  also have "a2 ! i = a1 ! i"
    using i h1 by (simp add: a2_def)
  also have "a1 ! i = a ! i"
    unfolding a1_def using i len by (intro adjust_heap_loop_above) simp_all
  finally show "adjust_heap greater a 0 len v ! i = a ! i"
    unfolding res .
qed

lemma pop_heap_min_heap_aux:
  fixes a :: "'a :: linorder list"
  assumes heap: "min_heap a n" and n: "0 < n" "n \<le> length a"
  shows "min_heap (pop_heap greater a n) (n - 1) \<and>
         pop_heap greater a n ! (n - 1) = a ! 0 \<and>
         mset (take n (pop_heap greater a n)) = mset (take n a) \<and>
         length (pop_heap greater a n) = length a"
proof (cases "n > 1")
  case False
  then have "pop_heap greater a n = a" "n - 1 = 0" using n by (simp_all add: pop_heap_def)
  then show ?thesis by (simp add: min_heap_def)
next
  case True
  define a' where "a' = a[n - 1 := a ! 0]"
  define v where "v = a ! (n - 1)"
  have res: "pop_heap greater a n = adjust_heap greater a' 0 (n - 1) v"
    using True by (simp add: pop_heap_def Let_def a'_def v_def)
  have inv: "hole_down a' (n - 1) 0"
    unfolding hole_down_def
  proof (intro conjI allI impI)
    show "0 < n - 1" using True by simp
    show "n - 1 \<le> length a'" using n by (simp add: a'_def)
    fix i assume i: "0 < i \<and> i < n - 1 \<and> i \<noteq> 0"
    then have "0 < i \<and> i < n" by linarith
    then have "a ! ((i - 1) div 2) \<le> a ! i" using heap unfolding min_heap_def by blast
    moreover have "(i - 1) div 2 \<noteq> n - 1" "i \<noteq> n - 1" using i by linarith+
    ultimately show "a' ! ((i - 1) div 2) \<le> a' ! i" by (simp add: a'_def)
  qed simp
  note ah = adjust_heap_root[OF inv, where v = v]
  have p1: "min_heap (pop_heap greater a n) (n - 1)"
    unfolding res by (rule ah(1))
  have p2: "pop_heap greater a n ! (n - 1) = a ! 0"
    unfolding res using ah(4)[of "n - 1"] n by (simp add: a'_def)
  have len: "length (pop_heap greater a n) = length a"
    unfolding res using ah(3) by (simp add: a'_def)
  have "mset (a'[0 := v]) = mset a"
  proof -
    have "a'[0 := v] = a[n - 1 := a ! 0, 0 := a ! (n - 1)]" by (simp add: a'_def v_def)
    moreover have "a \<noteq> []" "n - 1 < length a" using n by auto
    ultimately show ?thesis using mset_swap[of 0 a "n - 1"] by simp
  qed
  then have m: "mset (pop_heap greater a n) = mset a"
    unfolding res using ah(2) by simp
  have ab: "pop_heap greater a n ! i = a ! i" if "n \<le> i" for i
  proof -
    have "n - 1 \<le> i" "i \<noteq> n - 1" using that True by linarith+
    then show ?thesis unfolding res using ah(4)[of i] by (simp add: a'_def)
  qed
  have p3: "mset (take n (pop_heap greater a n)) = mset (take n a)"
    using len ab m by (intro mset_take_eq) simp_all
  show ?thesis using p1 p2 p3 len by simp
qed

lemmas pop_heap_min_heap =
  pop_heap_min_heap_aux[THEN conjunct1]
  pop_heap_min_heap_aux[THEN conjunct2, THEN conjunct1]
  pop_heap_min_heap_aux[THEN conjunct2, THEN conjunct2, THEN conjunct1]
  pop_heap_min_heap_aux[THEN conjunct2, THEN conjunct2, THEN conjunct2]

lemma push_heap_min_heap:
  fixes a :: "'a :: linorder list"
  assumes heap: "min_heap a (n - 1)" and n: "0 < n" "n \<le> length a"
  shows "min_heap (push_heap greater a n) n"
    and "mset (take n (push_heap greater a n)) = mset (take n a)"
    and "length (push_heap greater a n) = length a"
proof -
  have res: "push_heap greater a n = push_heap_loop greater a (n - 1) 0 (a ! (n - 1))"
    using n by (simp add: push_heap_def)
  have up: "hole_up a n (n - 1) (a ! (n - 1))"
    unfolding hole_up_def
  proof (intro conjI allI impI)
    show "n - 1 < n" "n \<le> length a" using n by simp_all
  next
    fix i assume "0 < i \<and> i < n \<and> i \<noteq> n - 1"
    then have "0 < i \<and> i < n - 1" by linarith
    then show "a ! ((i - 1) div 2) \<le> a ! i" using heap unfolding min_heap_def by blast
  next
    fix c assume c: "0 < c \<and> c < n \<and> (c - 1) div 2 = n - 1"
    then have False by linarith
    then show "a ! (n - 1) \<le> a ! c" ..
  next
    fix c assume c: "0 < c \<and> c < n \<and> (c - 1) div 2 = n - 1"
    then have False by linarith
    then show "a ! ((n - 1 - 1) div 2) \<le> a ! c" ..
  qed
  show "min_heap (push_heap greater a n) n"
    unfolding res using up by (rule push_heap_loop_heap)
  show len: "length (push_heap greater a n) = length a"
    unfolding res by simp
  have m: "mset (push_heap greater a n) = mset a"
    unfolding res using push_heap_loop_mset[of "n - 1" a greater 0 "a ! (n - 1)"] n by simp
  have ab: "push_heap greater a n ! i = a ! i" if "n \<le> i" for i
    unfolding res using that n by (intro push_heap_loop_above) linarith
  show "mset (take n (push_heap greater a n)) = mset (take n a)"
    using len ab m by (intro mset_take_eq) simp_all
qed

section \<open>The threshold kept by KthScore\<close>

lemma kth_largest_split:
  fixes xs :: "'a :: linorder list"
  assumes m: "mset xs = H + R" and k: "size H = k" "0 < k"
    and le: "\<And>r h. r \<in># R \<Longrightarrow> h \<in># H \<Longrightarrow> r \<le> h"
  shows "kth_largest k xs \<in># H \<and> (\<forall>h \<in># H. kth_largest k xs \<le> h)"
proof -
  define Rs where "Rs = sorted_list_of_multiset R"
  define Hs where "Hs = sorted_list_of_multiset H"
  have ms: "mset Rs = R" "mset Hs = H" by (simp_all add: Rs_def Hs_def)
  have srt: "sorted Rs" "sorted Hs" by (simp_all add: Rs_def Hs_def)
  have lens: "length Rs = size R" "length Hs = k"
    using k ms by (metis size_mset)+
  have "sorted (Rs @ Hs)"
    using srt le ms by (auto simp: sorted_append)
  moreover have "mset (Rs @ Hs) = mset xs" using m ms by simp
  ultimately have s: "sort xs = Rs @ Hs"
    by (metis properties_for_sort)
  have lx: "length xs = size R + k"
    using m k by (metis add.commute size_mset size_union)
  have "k - 1 < length (sort xs)" using lx k by simp
  then have "kth_largest k xs = sort xs ! (length xs - Suc (k - 1))"
    unfolding kth_largest_def by (simp add: rev_nth)
  also have "length xs - Suc (k - 1) = length Rs" using lx k lens by simp
  also have "sort xs ! length Rs = Hs ! 0" unfolding s by (simp add: nth_append)
  finally have e: "kth_largest k xs = Hs ! 0" .
  have "Hs ! 0 \<in> set Hs" using lens k by simp
  then have "kth_largest k xs \<in># H" using e ms by (metis set_mset_mset)
  moreover have "kth_largest k xs \<le> h" if "h \<in># H" for h
  proof -
    from that have "h \<in> set Hs" using ms by (metis set_mset_mset)
    then obtain i where "i < length Hs" "Hs ! i = h" by (auto simp: in_set_conv_nth)
    then show ?thesis using srt(2) e by (metis sorted_nth_mono le0)
  qed
  ultimately show ?thesis by blast
qed

lemma min_heap_update_above:
  "min_heap a n \<Longrightarrow> n \<le> i \<Longrightarrow> min_heap (a[i := x]) n"
  unfolding min_heap_def
proof (intro allI impI)
  fix j assume h: "\<forall>i. 0 < i \<and> i < n \<longrightarrow> a ! ((i - 1) div 2) \<le> a ! i" "n \<le> i" "0 < j \<and> j < n"
  then have "(j - 1) div 2 \<noteq> i" "j \<noteq> i" by linarith+
  then show "a[i := x] ! ((j - 1) div 2) \<le> a[i := x] ! j" using h by simp
qed

lemma min_heap_root_set:
  assumes "min_heap a n" "h \<in> set (take n a)" "n \<le> length a"
  shows "a ! 0 \<le> h"
proof -
  from assms(2) obtain i where "i < length (take n a)" "take n a ! i = h"
    by (auto simp: in_set_conv_nth)
  then have "i < n" "a ! i = h" by simp_all
  then show ?thesis using min_heap_root[OF assms(1), of i] by simp
qed

lemma head_is_kth_largest:
  assumes heap: "min_heap a k" and k: "0 < k" "k \<le> length a"
    and m: "mset xs = mset (take k a) + R"
    and le: "\<forall>r \<in># R. \<forall>h \<in> set (take k a). r \<le> h"
  shows "a ! 0 = kth_largest k xs"
proof -
  have "size (mset (take k a)) = k" using k by simp
  from kth_largest_split[OF m this k(1)] le
  have in_H: "kth_largest k xs \<in> set (take k a)"
    and least: "\<forall>h \<in> set (take k a). kth_largest k xs \<le> h"
    by auto
  have "a ! 0 \<le> kth_largest k xs"
    using min_heap_root_set[OF heap in_H k(2)] .
  moreover have "a ! 0 \<in> set (take k a)"
    using k by (metis (no_types, lifting) in_set_conv_nth length_take min.absorb2 nth_take)
  ultimately show ?thesis using least by force
qed

lemma KthScore_step_filling:
  assumes inv: "kth_inv k a j seen" and jk: "j < k"
  shows "kth_inv k (snd (KthScore s a j k)) (Suc j) (seen @ [s]) \<and>
         fst (KthScore s a j k) = (if k \<le> Suc j then kth_largest k (seen @ [s]) else - FLT_MAX)"
proof -
  define a1 where "a1 = a[j := s]"
  define a' where "a' = push_heap greater a1 (j + 1)"
  have len: "k \<le> length a" "length seen = j" using inv by (auto simp: kth_inv_def)
  have mj: "min j k = j" "min (Suc j) k = Suc j" using jk by simp_all
  have heap: "min_heap a j" and ms: "mset seen = mset (take j a)"
    using inv jk by (auto simp: kth_inv_def mj)
  have res: "KthScore s a j k = (if j + 1 < k then - FLT_MAX else a' ! 0, a')"
    using jk by (simp add: KthScore_def a1_def a'_def)
  have h1: "min_heap a1 (j + 1 - 1)" unfolding a1_def using heap by (simp add: min_heap_update_above)
  have n: "0 < j + 1" "j + 1 \<le> length a1" using jk len by (simp_all add: a1_def)
  note ph = push_heap_min_heap[OF h1 n, folded a'_def]
  have "take (j + 1) a1 = take j a @ [s]"
    using jk len by (simp add: a1_def take_Suc_conv_app_nth)
  then have m': "mset (seen @ [s]) = mset (take (Suc j) a') + {#}"
    using ph(2) ms by simp
  have inv': "kth_inv k a' (Suc j) (seen @ [s])"
    unfolding kth_inv_def mj
    using ph(1,3) len m' by (auto simp: a1_def)
  have "a' ! 0 = kth_largest k (seen @ [s])" if "k \<le> Suc j"
  proof -
    have e: "Suc j = k" using that jk by simp
    show ?thesis
    proof (rule head_is_kth_largest[where R = "{#}"])
      show "min_heap a' k" using ph(1) e by simp
      show "0 < k" using jk by simp
      show "k \<le> length a'" using ph(3) len by (simp add: a1_def)
      show "mset (seen @ [s]) = mset (take k a') + {#}" using m' e by simp
    qed simp
  qed
  then show ?thesis using inv' by (auto simp: res)
qed

lemma KthScore_step_full:
  assumes inv: "kth_inv k a j seen" and jk: "k \<le> j" and k: "0 < k"
  shows "kth_inv k (snd (KthScore s a j k)) (Suc j) (seen @ [s]) \<and>
         fst (KthScore s a j k) = kth_largest k (seen @ [s])"
proof -
  have len: "k \<le> length a" "length seen = j" using inv by (auto simp: kth_inv_def)
  have mj: "min j k = k" "min (Suc j) k = k" using jk by simp_all
  from inv obtain R where heap: "min_heap a k"
    and ms: "mset seen = mset (take k a) + R"
    and le: "\<forall>r \<in># R. \<forall>h \<in> set (take k a). r \<le> h"
    by (auto simp: kth_inv_def mj)
  have root: "a ! 0 \<le> h" if "h \<in> set (take k a)" for h
    using min_heap_root_set[OF heap that len(1)] .
  have root_in: "a ! 0 \<in> set (take k a)"
    using k len by (metis (no_types, lifting) in_set_conv_nth length_take min.absorb2 nth_take)
  show ?thesis
  proof (cases "s > a ! 0")
    case False
    have res: "KthScore s a j k = (a ! 0, a)"
      using jk False by (simp add: KthScore_def)
    have m': "mset (seen @ [s]) = mset (take k a) + (R + {#s#})" using ms by simp
    have le': "\<forall>r \<in># R + {#s#}. \<forall>h \<in> set (take k a). r \<le> h"
      using le root False by force
    have "kth_inv k a (Suc j) (seen @ [s])"
      unfolding kth_inv_def mj using len heap m' le' jk by auto
    moreover have "a ! 0 = kth_largest k (seen @ [s])"
      using heap k len(1) m' le' by (rule head_is_kth_largest)
    ultimately show ?thesis by (simp add: res)
  next
    case True
    define a1 where "a1 = pop_heap greater a k"
    define a2 where "a2 = a1[k - 1 := s]"
    define a' where "a' = push_heap greater a2 k"
    have res: "KthScore s a j k = (a' ! 0, a')"
      using jk True by (simp add: KthScore_def a1_def a2_def a'_def)
    note pp = pop_heap_min_heap[OF heap k len(1), folded a1_def]
    have l2: "length a2 = length a" using pp(4) by (simp add: a2_def)
    have h2: "min_heap a2 (k - 1)" unfolding a2_def using pp(1) by (simp add: min_heap_update_above)
    have n: "0 < k" "k \<le> length a2" using k len l2 by simp_all
    note ph = push_heap_min_heap[OF h2 n, folded a'_def]
    have t2: "take k a2 = (take k a1)[k - 1 := s]" by (simp add: a2_def take_update_swap)
    have "mset (take k a2) = add_mset s (mset (take k a1) - {#take k a1 ! (k - 1)#})"
      unfolding t2 using k len pp(4) by (intro mset_update) simp
    also have "take k a1 ! (k - 1) = a ! 0" using pp(2) k by simp
    also have "mset (take k a1) = mset (take k a)" by (rule pp(3))
    finally have mH: "mset (take k a') = add_mset s (mset (take k a) - {#a ! 0#})"
      using ph(2) by simp
    have in_a: "a ! 0 \<in># mset (take k a)" using root_in by simp
    have m': "mset (seen @ [s]) = mset (take k a') + (R + {#a ! 0#})"
      unfolding mH using ms in_a by simp
    have le': "\<forall>r \<in># R + {#a ! 0#}. \<forall>h \<in> set (take k a'). r \<le> h"
    proof (intro ballI)
      fix r h assume r: "r \<in># R + {#a ! 0#}" and h: "h \<in> set (take k a')"
      have r0: "r \<le> a ! 0" using r le root_in by auto
      from h have "h \<in># add_mset s (mset (take k a) - {#a ! 0#})"
        using mH by (metis set_mset_mset)
      then have "h = s \<or> h \<in> set (take k a)"
        by (auto dest: in_diffD)
      then show "r \<le> h" using r0 True root by force
    qed
    have "kth_inv k a' (Suc j) (seen @ [s])"
      unfolding kth_inv_def mj using len ph(1,3) l2 m' le' jk by auto
    moreover have "a' ! 0 = kth_largest k (seen @ [s])"
    proof (rule head_is_kth_largest[OF ph(1) k _ m' le'])
      show "k \<le> length a'" using ph(3) l2 len by simp
    qed
    ultimately show ?thesis by (simp add: res)
  qed
qed

lemma KthScore_calls_results:
  assumes "kth_inv k a j seen" "0 < k"
  shows "fst (KthScore_calls k a j rest) =
           map (\<lambda>m. if k \<le> j + m then kth_largest k (seen @ take m rest) else - FLT_MAX)
             [1 ..< Suc (length rest)] \<and>
         kth_inv k (snd (KthScore_calls k a j rest)) (j + length rest) (seen @ rest)"
  using assms(1)
proof (induction rest arbitrary: a j seen)
  case Nil
  then show ?case by simp
next
  case (Cons s rest)
  have step: "kth_inv k (snd (KthScore s a j k)) (Suc j) (seen @ [s]) \<and>
         fst (KthScore s a j k) = (if k \<le> Suc j then kth_largest k (seen @ [s]) else - FLT_MAX)"
  proof (cases "j < k")
    case True
    then show ?thesis using KthScore_step_filling[OF Cons.prems] by simp
  next
    case False
    then show ?thesis using KthScore_step_full[OF Cons.prems _ assms(2), of s] by simp
  qed
  have IH: "fst (KthScore_calls k (snd (KthScore s a j k)) (Suc j) rest) =
           map (\<lambda>m. if k \<le> Suc j + m then kth_largest k ((seen @ [s]) @ take m rest) else - FLT_MAX)
             [1 ..< Suc (length rest)] \<and>
         kth_inv k (snd (KthScore_calls k (snd (KthScore s a j k)) (Suc j) rest))
           (Suc j + length rest) ((seen @ [s]) @ rest)"
    using step by (intro Cons.IH) simp
  have upt: "[1 ..< Suc (length (s # rest))] = 1 # map Suc [1 ..< Suc (length rest)]"
    using upt_conv_Cons[of 1 "Suc (Suc (length rest))"] by (simp add: map_Suc_upt del: upt_Suc)
  show ?case
    unfolding upt
    using step IH by (simp add: split_beta Let_def comp_def del: upt_Suc)
qed

text \<open>
  Claim C4.  Called once per score with \<open>num_scores = 0, 1, 2, ...\<close> on an array of at least
  \<open>k \<ge> 1\<close> elements, \<open>KthScore\<close> returns at the \<open>m\<close>-th call the \<open>k\<close>-th largest of the first
  \<open>m\<close> scores when \<open>m \<ge> k\<close>, and \<open>-numeric_limits<float>::max()\<close>, the most negative finite
  \<open>float\<close>, when \<open>m < k\<close>.  The first \<open>min m k\<close> elements of the array are a heap with the
  smallest score on top, and they are the scores themselves while \<open>m \<le> k\<close>.
\<close>

theorem KthScore_calls_kth_largest:
  assumes "0 < k" "k \<le> length scores"
  shows "fst (KthScore_calls k scores 0 ss) =
           map (\<lambda>m. if k \<le> m then kth_largest k (take m ss) else - FLT_MAX) [1 ..< Suc (length ss)] \<and>
         min_heap (snd (KthScore_calls k scores 0 ss)) (min (length ss) k) \<and>
         (length ss \<le> k \<longrightarrow>
            mset (take (length ss) (snd (KthScore_calls k scores 0 ss))) = mset ss)"
proof -
  have "kth_inv k scores 0 []"
    using assms by (simp add: kth_inv_def min_heap_def)
  from KthScore_calls_results[OF this assms(1), of ss]
  have r: "fst (KthScore_calls k scores 0 ss) =
           map (\<lambda>m. if k \<le> m then kth_largest k (take m ss) else - FLT_MAX) [1 ..< Suc (length ss)]"
    and i: "kth_inv k (snd (KthScore_calls k scores 0 ss)) (length ss) ss"
    by simp_all
  have "min_heap (snd (KthScore_calls k scores 0 ss)) (min (length ss) k)"
    using i by (simp add: kth_inv_def)
  moreover have "mset (take (length ss) (snd (KthScore_calls k scores 0 ss))) = mset ss"
    if "length ss \<le> k"
  proof (cases "length ss < k")
    case True
    then show ?thesis using i by (auto simp: kth_inv_def)
  next
    case False
    then have e: "length ss = k" using that by simp
    from i obtain R where m: "mset ss = mset (take k (snd (KthScore_calls k scores 0 ss))) + R"
      and l: "k \<le> length (snd (KthScore_calls k scores 0 ss))"
      by (auto simp: kth_inv_def e)
    have "size (mset ss) = k + size R" using m l by (metis length_take min.absorb2 size_mset size_union)
    then have "R = {#}" using e by simp
    then show ?thesis using m e by simp
  qed
  ultimately show ?thesis using r by blast
qed

theorem KthScore_calls_kth_largest_witness:
  "(0::nat) < 3 \<and> 3 \<le> length [0, 0, 0 :: real] \<and>
   fst (KthScore_calls 3 [0, 0, 0] 0 [5, 1, 4, 2, 8]) = [- FLT_MAX, - FLT_MAX, 1, 2, 4]"
proof -
  have k: "kth_largest 3 [5, 1, 4 :: real] = 1" "kth_largest 3 [5, 1, 4, 2 :: real] = 2"
    "kth_largest 3 [5, 1, 4, 2, 8 :: real] = 4"
    by (simp_all add: kth_largest_def)
  have u: "[1 ..< Suc (length [5, 1, 4, 2, 8 :: real])] = [1, 2, 3, 4, 5]"
    by (simp add: upt_rec)
  show ?thesis
    using KthScore_calls_kth_largest[of 3 "[0, 0, 0]" "[5, 1, 4, 2, 8]", THEN conjunct1]
    unfolding u by (simp add: k)
qed

section \<open>The average document length\<close>

lemma sint_nonneg_unat:
  fixes x :: u64
  assumes "0 \<le> sint x"
  shows "sint x = int (unat x)"
proof -
  have "sint x < 2 ^ (64 - 1)" using sint_lt[of x] by simp
  also have "\<dots> < (2 :: int) ^ 64" by simp
  finally have "take_bit 64 (sint x) = sint x" using assms by (simp only: take_bit_int_eq_self)
  moreover have "uint x = take_bit 64 (sint x)" using uint_sint[of x] by simp
  ultimately show ?thesis by (simp only: uint_nat)
qed

lemma LoadIndexProperties_unat:
  assumes "unat n < 2 ^ 32"
  shows "unat (collection_average_doc_len (LoadIndexProperties n l)) =
           (if unat n = 0 \<or> unat l = 0 then 1 else (unat l div unat n) mod 2 ^ 32)"
proof -
  have n64: "unat (ucast (ucast n :: u32) :: u64) = unat n"
    using assms by (simp add: unsigned_ucast_eq unsigned_take_bit_eq take_bit_nat_def)
  have n32: "unat (ucast n :: u32) = unat n"
    using assms by (simp add: unsigned_ucast_eq take_bit_nat_def)
  have q: "unat (ucast (l div ucast (ucast n :: u32)) :: u32) = (unat l div unat n) mod 2 ^ 32"
    using n64 by (simp add: unsigned_ucast_eq take_bit_nat_def unat_div)
  have z1: "((ucast n :: u32) = 0) = (unat n = 0)"
    using n32 unat_eq_0[of "ucast n :: u32"] by simp
  show ?thesis
    using q z1 by (simp add: LoadIndexProperties_def Let_def unat_eq_0)
qed

text \<open>
  Claim C10, as the code has it.  The two meta counters are the \<open>long\<close> values \<open>n\<close>
  (\<open>total_num_docs\<close>) and \<open>l\<close> (\<open>total_document_lengths\<close>).  When neither is negative and
  \<open>total_num_docs\<close> fits the 32-bit member, \<open>collection_average_doc_len_\<close> is 1 if either
  counter is zero and otherwise the quotient of the integer division of
  \<open>total_document_lengths\<close> by \<open>total_num_docs\<close> (the fractional part is cut off, and so are the
  bits above the 32nd).  When the quotient fits 32 bits, the value is positive exactly if a
  counter is zero or \<open>total_num_docs\<close> is at most \<open>total_document_lengths\<close>; and the BM25
  multiplier \<open>kBm25DenominatorDocLenMul\<close> is finite exactly if the value is positive.
\<close>

theorem LoadIndexProperties_average_doc_len:
  assumes "0 \<le> sint n" "sint n < 2 ^ 32" "0 \<le> sint l"
  shows "uint (collection_average_doc_len (LoadIndexProperties n l)) =
           (if sint n = 0 \<or> sint l = 0 then 1 else (sint l div sint n) mod 2 ^ 32) \<and>
         (sint l div sint n < 2 ^ 32 \<longrightarrow>
            (0 < collection_average_doc_len (LoadIndexProperties n l)) =
            (sint n = 0 \<or> sint l = 0 \<or> sint n \<le> sint l)) \<and>
         (kBm25DenominatorDocLenMul (LoadIndexProperties n l) \<noteq> None) =
            (0 < collection_average_doc_len (LoadIndexProperties n l))"
proof -
  define avg where "avg = collection_average_doc_len (LoadIndexProperties n l)"
  define N where "N = unat n"
  define L where "L = unat l"
  define A where "A = unat avg"
  have sn: "sint n = int N" and sl: "sint l = int L"
    using assms by (simp_all only: sint_nonneg_unat N_def L_def)
  have "int N < 2 ^ 32" using assms(2) by (simp only: sn)
  then have "N < 2 ^ 32" by simp
  then have v: "A = (if N = 0 \<or> L = 0 then 1 else (L div N) mod 2 ^ 32)"
    unfolding A_def avg_def N_def L_def by (rule LoadIndexProperties_unat)
  have "uint avg = int A" by (simp only: A_def uint_nat)
  also have "\<dots> = (if int N = 0 \<or> int L = 0 then 1 else (int L div int N) mod 2 ^ 32)"
    unfolding v by (simp add: zdiv_int zmod_int)
  finally have a: "uint avg = (if sint n = 0 \<or> sint l = 0 then 1 else (sint l div sint n) mod 2 ^ 32)"
    by (simp only: sn sl)
  have pos: "(0 < avg) = (0 < A)" by (simp add: A_def word_greater_zero_iff unat_gt_0)
  have b: "(0 < avg) = (sint n = 0 \<or> sint l = 0 \<or> sint n \<le> sint l)" if "sint l div sint n < 2 ^ 32"
  proof -
    from that have "int (L div N) < 2 ^ 32" by (simp only: sn sl zdiv_int)
    then have "L div N < 2 ^ 32" by simp
    then have "(0 < A) = (N = 0 \<or> L = 0 \<or> N \<le> L)"
      unfolding v by (auto simp: div_greater_zero_iff)
    then show ?thesis unfolding pos sn sl by simp
  qed
  have c: "(kBm25DenominatorDocLenMul (LoadIndexProperties n l) \<noteq> None) = (0 < avg)"
    by (simp add: kBm25DenominatorDocLenMul_def word_greater_zero_iff avg_def)
  show ?thesis using a b c unfolding avg_def by blast
qed

theorem LoadIndexProperties_average_doc_len_witness:
  "0 \<le> sint (2 :: u64) \<and> sint (2 :: u64) < 2 ^ 32 \<and> 0 \<le> sint (5 :: u64) \<and>
   uint (collection_average_doc_len (LoadIndexProperties 2 5)) = 2 \<and>
   0 < collection_average_doc_len (LoadIndexProperties 2 5) \<and>
   kBm25DenominatorDocLenMul (LoadIndexProperties 2 5) \<noteq> None \<and>
   0 \<le> sint (0 :: u64) \<and>
   uint (collection_average_doc_len (LoadIndexProperties 0 5)) = 1"
  using LoadIndexProperties_average_doc_len[of 2 5] LoadIndexProperties_average_doc_len[of 0 5]
  by simp

text \<open>
  The value is not always positive: two documents of total length 1 give the average 0, and
  the BM25 multiplier is then not finite.
\<close>

theorem LoadIndexProperties_not_positive_counterexample:
  "collection_average_doc_len (LoadIndexProperties 2 1) = 0 \<and>
   kBm25DenominatorDocLenMul (LoadIndexProperties 2 1) = None"
  by (simp add: LoadIndexProperties_def Let_def kBm25DenominatorDocLenMul_def)

section \<open>The words of a query\<close>

lemma distinct_remdups_adj_sorted:
  "sorted (xs :: 'a :: linorder list) \<Longrightarrow> distinct (remdups_adj xs)"
proof (induction xs rule: remdups_adj.induct)
  case (3 x y xs)
  then show ?case by (auto simp: less_le)
qed simp_all

lemma set_sort_unique [simp]: "set (sort_unique ws) = set ws"
  by (simp add: sort_unique_def)

lemma sort_unique_set_eq:
  assumes "set xs = set ys"
  shows "sort_unique xs = sort_unique ys"
proof -
  have d: "distinct (remdups_adj (sort zs))" for zs :: "string list"
    by (simp add: distinct_remdups_adj_sorted)
  have s: "sorted (remdups_adj (sort zs))" for zs :: "string list"
    by (simp add: sorted_remdups_adj)
  have e: "set (remdups_adj (sort xs)) = set (remdups_adj (sort ys))"
    using assms by simp
  show ?thesis
    unfolding sort_unique_def
    by (rule sorted_distinct_set_unique[OF s d s d e])
qed

lemma read_words_no_space:
  "\<forall>c \<in> set w. \<not> isspace c \<Longrightarrow> read_words cur w = (if cur @ w = [] then [] else [cur @ w])"
  by (induction w arbitrary: cur) auto

lemma read_words_space:
  "isspace c \<Longrightarrow> read_words cur (xs @ c # ys) = read_words cur xs @ read_words [] ys"
  by (induction xs arbitrary: cur) auto

lemma read_words_member:
  "t \<in> set (read_words cur xs) \<Longrightarrow> \<forall>c \<in> set cur. \<not> isspace c \<Longrightarrow>
     t \<noteq> [] \<and> (\<forall>c \<in> set t. \<not> isspace c)"
proof (induction xs arbitrary: cur)
  case Nil
  then show ?case by (cases "cur = []") simp_all
next
  case (Cons c cs)
  show ?case
  proof (cases "isspace c")
    case True
    show ?thesis
    proof (cases "cur = []")
      case True
      with \<open>isspace c\<close> Cons.prems have "t \<in> set (read_words [] cs)" by simp
      then show ?thesis by (rule Cons.IH) simp
    next
      case False
      with \<open>isspace c\<close> Cons.prems have "t = cur \<or> t \<in> set (read_words [] cs)" by simp
      then show ?thesis
      proof
        assume "t = cur"
        with False Cons.prems show ?thesis by simp
      next
        assume "t \<in> set (read_words [] cs)"
        then show ?thesis by (rule Cons.IH) simp
      qed
    qed
  next
    case False
    with Cons.prems have "t \<in> set (read_words (cur @ [c]) cs)" by simp
    then show ?thesis
      by (rule Cons.IH) (use False Cons.prems in simp)
  qed
qed

lemma isspace_space: "isspace (CHR '' '')"
  by (simp add: isspace_def)

lemma set_apply_stop_list:
  "set (apply_stop_list sw ts) = {t \<in> set ts. sw \<noteq> {} \<longrightarrow> t \<notin> sw}"
  by (auto simp: apply_stop_list_def)

lemma ExecuteQuery_cong:
  assumes "set (query_words (stop_words qp) l1) = set (query_words (stop_words qp) l2)"
  shows "ExecuteQuery qp l1 = ExecuteQuery qp l2"
proof -
  have "sort_unique (query_words (stop_words qp) l1) = sort_unique (query_words (stop_words qp) l2)"
    using assms by (rule sort_unique_set_eq)
  moreover have "(query_words (stop_words qp) l1 = []) = (query_words (stop_words qp) l2 = [])"
    using assms by (metis set_empty)
  ultimately show ?thesis
    by (simp add: ExecuteQuery_def Let_def)
qed

lemma tolower_isspace: "isspace c \<Longrightarrow> tolower c = c"
  by (auto simp: isspace_def tolower_def isupper_def less_eq_char_def)

lemma read_words_insert:
  assumes "isspace c"
  shows "read_words [] (map tolower (l @ c # w @ c # r)) =
           read_words [] (map tolower l) @ read_words [] (map tolower w) @ read_words [] (map tolower r)"
    and "read_words [] (map tolower (l @ c # r)) =
           read_words [] (map tolower l) @ read_words [] (map tolower r)"
proof -
  have c: "tolower c = c" using assms by (rule tolower_isspace)
  have "read_words [] (map tolower (l @ c # w @ c # r)) =
        read_words [] (map tolower l) @ read_words [] (map tolower w @ c # map tolower r)"
    using read_words_space[OF assms, of "[]" "map tolower l" "map tolower w @ c # map tolower r"]
    by (simp add: c)
  also have "read_words [] (map tolower w @ c # map tolower r) =
        read_words [] (map tolower w) @ read_words [] (map tolower r)"
    by (rule read_words_space[OF assms])
  finally show "read_words [] (map tolower (l @ c # w @ c # r)) =
           read_words [] (map tolower l) @ read_words [] (map tolower w) @ read_words [] (map tolower r)" .
  show "read_words [] (map tolower (l @ c # r)) =
           read_words [] (map tolower l) @ read_words [] (map tolower r)"
    using read_words_space[OF assms, of "[]" "map tolower l" "map tolower r"] by (simp add: c)
qed

lemma ExecuteQuery_same_words:
  assumes "set (read_words [] (map tolower l1)) = set (read_words [] (map tolower l2))"
  shows "ExecuteQuery qp l1 = ExecuteQuery qp l2"
  using assms by (intro ExecuteQuery_cong) (simp add: query_words_def set_apply_stop_list)

text \<open>
  Claim C9.  \<open>ExecuteQuery\<close> lower-cases the line, drops the stop words, sorts the words and
  removes the repeated ones before it looks anything up.  So (1) two lines that differ only in
  letter case have the same outcome; (2) two lines with the same lower-cased words have the
  same outcome, however often and in whatever order each word is written; (3) in particular,
  writing words that the line already has once more, anywhere in the line and between white
  space, does not change the outcome; (4) a line all of whose words are stop words (a line of
  white space has no words) ends in the early return, before the lexicon is consulted.
\<close>

theorem ExecuteQuery_case_and_repetition:
  "(map tolower l1 = map tolower l2 \<longrightarrow> ExecuteQuery qp l1 = ExecuteQuery qp l2) \<and>
   (set (read_words [] (map tolower l1)) = set (read_words [] (map tolower l2)) \<longrightarrow>
      ExecuteQuery qp l1 = ExecuteQuery qp l2) \<and>
   (isspace c \<and>
    set (read_words [] (map tolower w)) \<subseteq> set (read_words [] (map tolower (l @ c # r))) \<longrightarrow>
      ExecuteQuery qp (l @ c # w @ c # r) = ExecuteQuery qp (l @ c # r)) \<and>
   (set (read_words [] (map tolower query_line)) \<subseteq> stop_words qp \<longrightarrow>
      ExecuteQuery qp query_line = NoQuery)"
proof (intro conjI impI)
  assume "map tolower l1 = map tolower l2"
  then show "ExecuteQuery qp l1 = ExecuteQuery qp l2"
    by (intro ExecuteQuery_same_words) simp
next
  assume "set (read_words [] (map tolower l1)) = set (read_words [] (map tolower l2))"
  then show "ExecuteQuery qp l1 = ExecuteQuery qp l2"
    by (rule ExecuteQuery_same_words)
next
  assume a: "isspace c \<and>
    set (read_words [] (map tolower w)) \<subseteq> set (read_words [] (map tolower (l @ c # r)))"
  then have "isspace c" by simp
  note ins = read_words_insert[OF this]
  from a have "set (read_words [] (map tolower (l @ c # w @ c # r))) =
               set (read_words [] (map tolower (l @ c # r)))"
    unfolding ins by auto
  then show "ExecuteQuery qp (l @ c # w @ c # r) = ExecuteQuery qp (l @ c # r)"
    by (rule ExecuteQuery_same_words)
next
  assume "set (read_words [] (map tolower query_line)) \<subseteq> stop_words qp"
  then have "t \<in> stop_words qp \<and> stop_words qp \<noteq> {}"
    if "t \<in> set (read_words [] (map tolower query_line))" for t
    using that by auto
  then have "query_words (stop_words qp) query_line = []"
    by (simp add: query_words_def apply_stop_list_def filter_empty_conv)
  then show "ExecuteQuery qp query_line = NoQuery"
    by (simp add: ExecuteQuery_def)
qed

theorem ExecuteQuery_case_and_repetition_witness:
  "map tolower ''Alpha BETA'' = map tolower ''alpha beTa'' \<and>
   ExecuteQuery toy_query_processor ''Alpha BETA'' = ExecuteQuery toy_query_processor ''alpha beTa'' \<and>
   set (read_words [] (map tolower ''alpha alpha beta'')) = set (read_words [] (map tolower ''beta alpha'')) \<and>
   ExecuteQuery toy_query_processor ''alpha alpha beta'' = ExecuteQuery toy_query_processor ''beta alpha'' \<and>
   isspace (CHR '' '') \<and>
   set (read_words [] (map tolower ''ALPHA'')) \<subseteq>
     set (read_words [] (map tolower (''alpha'' @ CHR '' '' # ''beta''))) \<and>
   ExecuteQuery toy_query_processor (''alpha'' @ CHR '' '' # ''ALPHA'' @ CHR '' '' # ''beta'') =
     ExecuteQuery toy_query_processor (''alpha'' @ CHR '' '' # ''beta'') \<and>
   ExecuteQuery toy_query_processor ''alpha beta'' = Evaluated Call_ProcessQuery [1, 2] [1, 2] \<and>
   set (read_words [] (map tolower '' The  of '')) \<subseteq> stop_words toy_query_processor \<and>
   ExecuteQuery toy_query_processor '' The  of '' = NoQuery"
proof -
  have h1: "map tolower ''Alpha BETA'' = map tolower ''alpha beTa''"
    by code_simp
  have h2: "set (read_words [] (map tolower ''alpha alpha beta'')) = set (read_words [] (map tolower ''beta alpha''))"
    by code_simp
  have h3a: "isspace (CHR '' '')" by (rule isspace_space)
  have h3b: "set (read_words [] (map tolower ''ALPHA'')) \<subseteq>
     set (read_words [] (map tolower (''alpha'' @ CHR '' '' # ''beta'')))"
    by code_simp
  have rw: "read_words [] (map tolower '' The  of '') = [''the'', ''of'']"
    by code_simp
  have h4: "set (read_words [] (map tolower '' The  of '')) \<subseteq> stop_words toy_query_processor"
    unfolding rw by (simp add: toy_query_processor_def)
  have ev: "ExecuteQuery toy_query_processor ''alpha beta'' = Evaluated Call_ProcessQuery [1, 2] [1, 2]"
    by code_simp
  note c1 = ExecuteQuery_case_and_repetition[of "''Alpha BETA''" "''alpha beTa''" toy_query_processor
      "CHR '' ''" "''ALPHA''" "''alpha''" "''beta''" "'' The  of ''", THEN conjunct1, THEN mp, OF h1]
  note c2 = ExecuteQuery_case_and_repetition[of "''alpha alpha beta''" "''beta alpha''" toy_query_processor
      "CHR '' ''" "''ALPHA''" "''alpha''" "''beta''" "'' The  of ''", THEN conjunct2, THEN conjunct1, THEN mp, OF h2]
  note c3 = ExecuteQuery_case_and_repetition[of "''alpha alpha beta''" "''beta alpha''" toy_query_processor
      "CHR '' ''" "''ALPHA''" "''alpha''" "''beta''" "'' The  of ''", THEN conjunct2, THEN conjunct2, THEN conjunct1,
      THEN mp, OF conjI[OF h3a h3b]]
  note c4 = ExecuteQuery_case_and_repetition[of "''alpha alpha beta''" "''beta alpha''" toy_query_processor
      "CHR '' ''" "''ALPHA''" "''alpha''" "''beta''" "'' The  of ''", THEN conjunct2, THEN conjunct2, THEN conjunct2,
      THEN mp, OF h4]
  show ?thesis
    by (intro conjI h1 h2 h3a h3b h4 c1 c2 c3 c4 ev)
qed

section \<open>A query term that is not in the lexicon\<close>

lemma length_map_filter_less:
  assumes "w \<in> set ws" "f w = None"
  shows "length (List.map_filter f ws) < length ws"
proof -
  have "List.map_filter f ws = map (the \<circ> f) (filter (\<lambda>x. f x \<noteq> None) ws)"
    by (simp add: List.map_filter_def comp_def)
  moreover have "length (filter (\<lambda>x. f x \<noteq> None) ws) < length ws"
    using assms by (intro length_filter_less[of w]) auto
  ultimately show ?thesis by simp
qed

text \<open>
  Claim C5.  Under the algorithms with AND semantics, a query with a word that the lexicon
  lacks ends with zero results and no evaluator is called.  Under the algorithms with OR
  semantics, a query with at least one word calls the evaluator of the algorithm on the
  lexicon entries of exactly the words the lexicon has, in sorted order, and shows what the
  evaluator returns.
\<close>

theorem ExecuteQuery_missing_term:
  "(query_algorithm qp \<in> {kDaatAnd, kDualLayeredOverlappingDaat, kDualLayeredOverlappingMergeDaat} \<and>
    t \<in> set (query_words (stop_words qp) query_line) \<and> lexicon qp t = None \<longrightarrow>
      ExecuteQuery qp query_line = ZeroResults) \<and>
   (query_algorithm qp \<in> {kDaatOr, kLayeredTaatOrEarlyTerminated, kWand, kDualLayeredWand, kMaxScore,
        kDualLayeredMaxScore} \<and>
    query_words (stop_words qp) query_line \<noteq> [] \<longrightarrow>
      (\<exists>e. dispatch (query_algorithm qp) = Some e \<and>
        ExecuteQuery qp query_line =
          Evaluated e
            (map (the \<circ> lexicon qp)
               (filter (\<lambda>w. lexicon qp w \<noteq> None) (sort_unique (query_words (stop_words qp) query_line))))
            (evaluators qp e
               (map (the \<circ> lexicon qp)
                  (filter (\<lambda>w. lexicon qp w \<noteq> None) (sort_unique (query_words (stop_words qp) query_line))))
               (max_num_results qp))))"
proof (intro conjI impI)
  assume a: "query_algorithm qp \<in> {kDaatAnd, kDualLayeredOverlappingDaat, kDualLayeredOverlappingMergeDaat} \<and>
    t \<in> set (query_words (stop_words qp) query_line) \<and> lexicon qp t = None"
  then have sem: "processing_semantics (query_algorithm qp) = kAnd"
    by auto
  have ne: "query_words (stop_words qp) query_line \<noteq> []"
    using a by auto
  have "t \<in> set (sort_unique (query_words (stop_words qp) query_line))"
    using a by simp
  then have "length (List.map_filter (lexicon qp) (sort_unique (query_words (stop_words qp) query_line)))
      < length (sort_unique (query_words (stop_words qp) query_line))"
    using a by (intro length_map_filter_less[of t]) auto
  then show "ExecuteQuery qp query_line = ZeroResults"
    using sem ne by (simp add: ExecuteQuery_def Let_def)
next
  assume a: "query_algorithm qp \<in> {kDaatOr, kLayeredTaatOrEarlyTerminated, kWand, kDualLayeredWand, kMaxScore,
        kDualLayeredMaxScore} \<and> query_words (stop_words qp) query_line \<noteq> []"
  then have sem: "processing_semantics (query_algorithm qp) = kOr"
    by auto
  from a obtain e where e: "dispatch (query_algorithm qp) = Some e"
    by auto
  have mf: "List.map_filter (lexicon qp) ws = map (the \<circ> lexicon qp) (filter (\<lambda>w. lexicon qp w \<noteq> None) ws)" for ws
    by (simp add: List.map_filter_def comp_def)
  show "\<exists>e. dispatch (query_algorithm qp) = Some e \<and>
        ExecuteQuery qp query_line =
          Evaluated e
            (map (the \<circ> lexicon qp)
               (filter (\<lambda>w. lexicon qp w \<noteq> None) (sort_unique (query_words (stop_words qp) query_line))))
            (evaluators qp e
               (map (the \<circ> lexicon qp)
                  (filter (\<lambda>w. lexicon qp w \<noteq> None) (sort_unique (query_words (stop_words qp) query_line))))
               (max_num_results qp))"
    using a e sem by (simp add: ExecuteQuery_def Let_def mf)
qed

theorem ExecuteQuery_missing_term_witness:
  "query_algorithm (toy_query_processor\<lparr>query_algorithm := kDaatAnd\<rparr>) \<in>
      {kDaatAnd, kDualLayeredOverlappingDaat, kDualLayeredOverlappingMergeDaat} \<and>
   ''gamma'' \<in> set (query_words (stop_words (toy_query_processor\<lparr>query_algorithm := kDaatAnd\<rparr>))
      ''beta gamma alpha'') \<and>
   lexicon (toy_query_processor\<lparr>query_algorithm := kDaatAnd\<rparr>) ''gamma'' = None \<and>
   ExecuteQuery (toy_query_processor\<lparr>query_algorithm := kDaatAnd\<rparr>) ''beta gamma alpha'' = ZeroResults \<and>
   query_algorithm toy_query_processor \<in> {kDaatOr, kLayeredTaatOrEarlyTerminated, kWand,
      kDualLayeredWand, kMaxScore, kDualLayeredMaxScore} \<and>
   query_words (stop_words toy_query_processor) ''beta gamma alpha'' \<noteq> [] \<and>
   ExecuteQuery toy_query_processor ''beta gamma alpha'' = Evaluated Call_ProcessQuery [1, 2] [1, 2]"
proof -
  have w: "query_words {''the'', ''of''} ''beta gamma alpha'' = [''beta'', ''gamma'', ''alpha'']"
    by code_simp
  have su: "sort_unique [''beta'', ''gamma'', ''alpha''] = [''alpha'', ''beta'', ''gamma'']"
    by code_simp
  show ?thesis
    using
      ExecuteQuery_missing_term[of "toy_query_processor\<lparr>query_algorithm := kDaatAnd\<rparr>" "''gamma''"
        "''beta gamma alpha''"]
      ExecuteQuery_missing_term[of toy_query_processor "''gamma''" "''beta gamma alpha''"]
    by (simp add: toy_query_processor_def w su)
qed

section \<open>The layers of a list\<close>

lemma mset_unguarded_linear_insert:
  "mset (unguarded_linear_insert cmp xs v) = add_mset v (mset xs)"
proof -
  have "mset (rev (dropWhile (cmp v) (rev xs))) + mset (rev (takeWhile (cmp v) (rev xs))) = mset (rev xs)"
    by (metis mset_append mset_rev takeWhile_dropWhile_id union_commute)
  then show ?thesis by (simp add: unguarded_linear_insert_def)
qed

lemma mset_insertion_sort_loop:
  "mset (insertion_sort_loop cmp sorted_part rest) = mset sorted_part + mset rest"
  by (induction rest arbitrary: sorted_part) (simp_all add: mset_unguarded_linear_insert)

lemma mset_std_sort: "mset (std_sort cmp a) = mset a"
  by (cases a) (simp_all add: std_sort_def mset_insertion_sort_loop)

lemma length_std_sort: "length (std_sort cmp a) = length a"
  using mset_std_sort[of cmp a] by (metis size_mset)

declare fix_layer_boundary.simps [simp del]

declare DumpToIndex.simps [simp del]

declare layers_from.simps [simp del]

lemma fix_layer_boundary_props:
  "fix_layer_boundary score buf n last_layer c l = (c', l') \<Longrightarrow>
     c' + l' = c + l \<and> c \<le> c' \<and>
     (last_layer \<or> l' = 0 \<or>
      score (buf ! (n - l')) < score (buf ! (n - l' - c')))"
proof (induction score buf n last_layer c l rule: fix_layer_boundary.induct)
  case (1 score buf n last_layer c l)
  show ?case
  proof (cases "last_layer \<or> l \<le> 0")
    case True
    then show ?thesis using "1.prems" by (subst (asm) fix_layer_boundary.simps) auto
  next
    case stop: False
    show ?thesis
    proof (cases "score (buf ! (n - l - c)) \<le> score (buf ! (n - l))")
      case True
      then have "fix_layer_boundary score buf n last_layer (c + 1) (l - 1) = (c', l')"
        using stop "1.prems" by (subst (asm) fix_layer_boundary.simps) (simp add: Let_def)
      from "1.IH"[OF stop refl refl refl refl True this] stop show ?thesis by auto
    next
      case False
      then have "c' = c" "l' = l"
        using stop "1.prems" by (subst (asm) fix_layer_boundary.simps, simp add: Let_def)+
      then show ?thesis using False by auto
    qed
  qed
qed

lemma layer_split_props:
  assumes "layer_split score buf nl n i l = (c', l')"
  shows "c' + l' = l" and "i = nl - 1 \<Longrightarrow> l' = 0"
    and "i \<noteq> nl - 1 \<Longrightarrow> l' \<noteq> 0 \<Longrightarrow> score (buf ! (n - l')) < score (buf ! (n - l' - c'))"
proof -
  define c1 where "c1 = min (proposed_layer_size i n) l"
  define c2 where "c2 = (if c1 < CHUNK_SIZE \<and> l \<ge> CHUNK_SIZE then CHUNK_SIZE else c1)"
  define l2 where "l2 = l - c2"
  define c3 where "c3 = (if i = nl - 1 \<and> l2 > 0 then c2 + l2 else c2)"
  define l3 where "l3 = (if i = nl - 1 \<and> l2 > 0 then 0 else l2)"
  have "layer_split score buf nl n i l =
        (case (if i = nl - 1 \<and> l2 > 0 then (c2 + l2, 0) else (c2, l2)) of
           (c, l) \<Rightarrow> fix_layer_boundary score buf n (i = nl - 1) c l)"
    unfolding layer_split_def Let_def c1_def c2_def l2_def by (rule refl)
  also have "\<dots> = fix_layer_boundary score buf n (i = nl - 1) c3 l3"
    by (simp add: c3_def l3_def)
  finally have fixb: "fix_layer_boundary score buf n (i = nl - 1) c3 l3 = (c', l')"
    using assms by simp
  note props = fix_layer_boundary_props[OF fixb]
  have "c1 \<le> l" by (simp add: c1_def)
  then have "c2 \<le> l" by (simp add: c2_def)
  then have sum3: "c3 + l3 = l" by (simp add: c3_def l3_def l2_def)
  with props show "c' + l' = l" by simp
  show "l' = 0" if "i = nl - 1"
  proof -
    have "l3 = 0" using that by (simp add: l3_def)
    moreover have "c3 \<le> c'" using props by simp
    ultimately show ?thesis using props sum3 by simp
  qed
  show "score (buf ! (n - l')) < score (buf ! (n - l' - c'))" if "i \<noteq> nl - 1" "l' \<noteq> 0"
    using props that by auto
qed

lemma layers_from_stop:
  "\<not> i < nl \<or> l = 0 \<Longrightarrow> layers_from score ov nl n i l buf = Inr []"
  by (subst layers_from.simps) auto

lemma layers_from_unfold:
  assumes "i < nl" "0 < l"
  shows "layers_from score ov nl n i l buf =
     (case layer_split score buf nl n i l of
        (num_postings_curr_layer, num_postings_left) \<Rightarrow>
          if \<not> num_postings_curr_layer > 0 then Inl AssertionFailure
           else
             let curr_layer_start = n - num_postings_left - num_postings_curr_layer;
                 layer_start = (if ov then 0 else curr_layer_start);
                 layer_end = curr_layer_start + num_postings_curr_layer;
                 score_threshold = score (buf ! curr_layer_start);
                 layer = std_sort IndexEntryDocIdComparison
                           (drop layer_start (take layer_end buf))
             in case DumpToIndex score layer 0 0 0 of
                  Inl err \<Rightarrow> Inl err
                | Inr (chunks, dumped) \<Rightarrow>
                    let index_entry_buffer =
                          take layer_start buf @ dumped @ drop layer_end buf
                    in case layers_from score ov nl n (i + 1)
                              num_postings_left index_entry_buffer of
                         Inl err \<Rightarrow> Inl err
                       | Inr layers \<Rightarrow> Inr ((layer, chunks, score_threshold) # layers))"
proof -
  have c: "(\<not> i < nl \<or> l \<le> 0) = False" using assms by simp
  show ?thesis
    by (subst layers_from.simps) (simp only: c if_False layer_split_def Let_def split_beta)
qed

lemma layers_from_step:
  assumes "i < nl" "0 < l" "layer_split score buf nl n i l = (c, l')" "0 < c"
  shows "layers_from score ov nl n i l buf =
     (case DumpToIndex score
               (std_sort IndexEntryDocIdComparison
                  (drop (if ov then 0 else n - l' - c) (take (n - l' - c + c) buf))) 0 0 0 of
          Inl err \<Rightarrow> Inl err
        | Inr (chunks, dumped) \<Rightarrow>
            (case layers_from score ov nl n (i + 1) l'
                    (take (if ov then 0 else n - l' - c) buf @ dumped @ drop (n - l' - c + c) buf) of
               Inl err \<Rightarrow> Inl err
             | Inr layers \<Rightarrow>
                 Inr ((std_sort IndexEntryDocIdComparison
                         (drop (if ov then 0 else n - l' - c) (take (n - l' - c + c) buf)),
                       chunks, score (buf ! (n - l' - c))) # layers)))"
  unfolding layers_from_unfold[OF assms(1,2)] assms(3) prod.case Let_def using assms(4) by simp

lemma chunk_doc_id_gaps_length:
  "chunk_doc_id_gaps es off prev = Inr gaps \<Longrightarrow> length gaps = length es"
proof (induction es arbitrary: off prev gaps)
  case Nil
  then show ?case by simp
next
  case (Cons e es)
  from Cons.prems obtain gs where
    gs: "chunk_doc_id_gaps es (off + 1) (doc_id e) = Inr gs" and g: "length gaps = Suc (length gs)"
    by (auto simp: Let_def split: if_splits sum.splits)
  from Cons.IH[OF gs] g show ?case by simp
qed

lemma DumpToIndex_props:
  "DumpToIndex score es off pl p = Inr (chunks, dumped) \<Longrightarrow>
     num_postings_added chunks = length es \<and> mset dumped = mset es"
proof (induction score es off pl p arbitrary: chunks dumped rule: DumpToIndex.induct)
  case (1 score es off pl p)
  show ?case
  proof (cases "es = []")
    case True
    then show ?thesis using "1.prems"
      by (subst (asm) DumpToIndex.simps) (simp add: num_postings_added_def)
  next
    case False
    define ce where "ce = take CHUNK_SIZE es"
    from "1.prems" False obtain gaps where
      gaps: "chunk_doc_id_gaps ce off p = Inr gaps"
      by (subst (asm) DumpToIndex.simps) (auto simp: Let_def ce_def split: sum.splits)
    define sorted where "sorted = std_sort (DocIdScoreComparison score) ce"
    define chunk where "chunk = \<lparr> chunk_doc_ids = gaps, chunk_frequencies = map frequency ce,
        chunk_last_doc_id = nat (int (pl + sum_list gaps) mod 4294967296),
        chunk_max_score = score (hd sorted) \<rparr>"
    from "1.prems" False gaps obtain cs rest where
      rec: "DumpToIndex score (drop CHUNK_SIZE es) (off + length ce) (chunk_last_doc_id chunk)
              (doc_id (last ce)) = Inr (cs, rest)"
      and res: "chunks = chunk # cs" "dumped = sorted @ rest"
      by (subst (asm) DumpToIndex.simps)
         (auto simp: Let_def ce_def sorted_def chunk_def split: sum.splits)
    note IH = "1.IH"[OF False ce_def gaps sorted_def chunk_def rec]
    have "length gaps = length ce" using gaps by (rule chunk_doc_id_gaps_length)
    then have "num_postings_added chunks = length ce + length (drop CHUNK_SIZE es)"
      using IH res by (simp add: num_postings_added_def chunk_def)
    moreover have "mset dumped = mset ce + mset (drop CHUNK_SIZE es)"
      using IH res by (simp add: sorted_def mset_std_sort)
    moreover have "mset ce + mset (drop CHUNK_SIZE es) = mset es"
      unfolding ce_def by (metis append_take_drop_id mset_append)
    moreover have "length ce + length (drop CHUNK_SIZE es) = length es"
      unfolding ce_def by simp
    ultimately show ?thesis by simp
  qed
qed

lemma DumpToIndex_length:
  "DumpToIndex score es off pl p = Inr (chunks, dumped) \<Longrightarrow> length dumped = length es"
  using DumpToIndex_props[of score es off pl p chunks dumped] by (metis size_mset)



text \<open>
  The thresholds of the layers of a list are strictly decreasing: a layer takes postings from
  the next one as long as the first posting of the next layer scores at least as much as the
  first posting of the layer itself, whose score is the threshold of the layer.
\<close>

lemma sorted_wrt_greater_Cons:
  fixes t :: real
  assumes "sorted_wrt (\<lambda>x y. x > y) ts" "ts \<noteq> [] \<Longrightarrow> t > hd ts"
  shows "sorted_wrt (\<lambda>x y. x > y) (t # ts)"
proof (cases ts)
  case Nil
  then show ?thesis by simp
next
  case (Cons u us)
  with assms have "t > u" "\<forall>x \<in> set us. u > x" "sorted_wrt (\<lambda>x y. x > y) us" by auto
  then show ?thesis using Cons by fastforce
qed

lemma layers_from_thresholds:
  "layers_from score ov nl n i l buf = Inr layers \<Longrightarrow> l \<le> n \<Longrightarrow> length buf = n \<Longrightarrow>
   sorted_wrt (\<lambda>x y. x > y) (map (\<lambda>(layer, chunks, score_threshold). score_threshold) layers) \<and>
   (layers \<noteq> [] \<longrightarrow> snd (snd (hd layers)) = score (buf ! (n - l)))"
proof (induction "nl - i" arbitrary: i l buf layers)
  case 0
  then show ?case by (simp add: layers_from_stop)
next
  case (Suc k)
  show ?case
  proof (cases "l = 0")
    case True
    then show ?thesis using Suc.prems by (simp add: layers_from_stop)
  next
    case False
    then have i: "i < nl" and l: "0 < l" using Suc.hyps(2) by auto
    obtain c l' where split: "layer_split score buf nl n i l = (c, l')"
      by (cases "layer_split score buf nl n i l")
    note props = layer_split_props[OF split]
    have c: "0 < c"
    proof (rule ccontr)
      assume "\<not> 0 < c"
      then have "layers_from score ov nl n i l buf = Inl AssertionFailure"
        unfolding layers_from_unfold[OF i l] split by simp
      with Suc.prems show False by simp
    qed
    define ls where "ls = (if ov then 0 else n - l' - c)"
    define layer where "layer = std_sort IndexEntryDocIdComparison (drop ls (take (n - l' - c + c) buf))"
    note step = layers_from_step[OF i l split c, of ov]
    from Suc.prems(1) obtain chunks dumped rest where
      dump: "DumpToIndex score layer 0 0 0 = Inr (chunks, dumped)" and
      rec: "layers_from score ov nl n (i + 1) l' (take ls buf @ dumped @ drop (n - l' - c + c) buf) = Inr rest" and
      res: "layers = (layer, chunks, score (buf ! (n - l' - c))) # rest"
      unfolding step by (auto simp: layer_def ls_def split: sum.splits)
    have sum: "c + l' = l" by (rule props(1))
    then have "l' \<le> n" using Suc.prems by simp
    have end_eq: "n - l' - c + c = n - l'" and start: "n - l' - c = n - l"
      using sum Suc.prems by simp_all
    have "ls \<le> n - l'" using end_eq by (simp add: ls_def)
    have len_layer: "length layer = n - l' - ls"
      using Suc.prems end_eq by (simp add: layer_def length_std_sort)
    have len_dumped: "length dumped = n - l' - ls"
      using DumpToIndex_length[OF dump] len_layer by simp
    define buf' where "buf' = take ls buf @ dumped @ drop (n - l' - c + c) buf"
    have len': "length buf' = n"
      using Suc.prems len_dumped \<open>ls \<le> n - l'\<close> \<open>l' \<le> n\<close> end_eq by (simp add: buf'_def)
    have nth': "buf' ! (n - l') = buf ! (n - l')" if "0 < l'"
    proof -
      have "length (take ls buf @ dumped) = n - l'"
        using Suc.prems len_dumped \<open>ls \<le> n - l'\<close> by simp
      then have "buf' ! (n - l') = drop (n - l' - c + c) buf ! 0"
        unfolding buf'_def by (metis append.assoc nth_append_length_plus add.right_neutral)
      also have "\<dots> = buf ! (n - l')"
        using that Suc.prems \<open>l' \<le> n\<close> end_eq by simp
      finally show ?thesis .
    qed
    have k: "k = nl - (i + 1)" using Suc.hyps(2) by simp
    note IH = Suc.hyps(1)[OF k rec[folded buf'_def] \<open>l' \<le> n\<close> len']
    let ?ts = "map (\<lambda>(layer, chunks, score_threshold). score_threshold) rest"
    have "score (buf ! (n - l' - c)) > hd ?ts" if ne: "?ts \<noteq> []"
    proof -
      from ne have ne': "rest \<noteq> []" by simp
      have cond: "i + 1 < nl" "0 < l'"
      proof -
        show "i + 1 < nl"
        proof (rule ccontr)
          assume "\<not> i + 1 < nl"
          then have "rest = []" using rec by (simp add: layers_from_stop)
          with ne' show False by simp
        qed
        show "0 < l'"
        proof (rule ccontr)
          assume "\<not> 0 < l'"
          then have "rest = []" using rec by (simp add: layers_from_stop)
          with ne' show False by simp
        qed
      qed
      from IH ne' have "snd (snd (hd rest)) = score (buf' ! (n - l'))" by simp
      then have "hd ?ts = score (buf ! (n - l'))"
        using ne' nth'[OF cond(2)] by (simp add: hd_map split_beta)
      moreover from props(3) cond have "score (buf ! (n - l')) < score (buf ! (n - l' - c))" by auto
      ultimately show ?thesis by simp
    qed
    with IH have "sorted_wrt (\<lambda>x y. x > y) (score (buf ! (n - l' - c)) # ?ts)"
      by (intro sorted_wrt_greater_Cons) auto
    then show ?thesis unfolding res using start by simp
  qed
qed

lemma CreateLayeredIndex_term_thresholds_decreasing:
  assumes "CreateLayeredIndex_term score ov nl index_entries = Inr layers"
  shows "sorted_wrt (\<lambda>x y. x > y) (map (\<lambda>(layer, chunks, score_threshold). score_threshold) layers)"
  using assms layers_from_thresholds[of score ov nl "length index_entries" 0 "length index_entries"
      "std_sort (DocIdScoreComparison score) index_entries" layers]
  by (simp add: CreateLayeredIndex_term_def Let_def length_std_sort)

section \<open>Equal scores on the two sides of a layer boundary\<close>

lemma Bm25Score_tied: "Bm25Score (\<lambda>d. 2) 40 2 404 = tied_score"
  by (rule ext) (simp add: Bm25Score_def tied_score_def add.commute)

lemma layers_tied:
  "map_sum id (map (\<lambda>(layer, chunks, score_threshold). (map frequency layer, score_threshold)))
     (CreateLayeredIndex_term tied_score False 2 tied_postings) =
   Inr [([3, 2], 9 / 5), (2 # replicate 37 1, 3 / 2)]"
  by code_simp

text \<open>
  Claim C6, at the list \<open>tied_postings\<close> with two non-overlapping layers.  The layers are
  given by the frequencies of their postings in the order of the docIDs, with their
  thresholds.  The first layer gets the posting of frequency 3 and one of the two postings of
  frequency 2, the second layer the other posting of frequency 2 and the rest.  The thresholds
  \<open>9/5\<close> and \<open>3/2\<close> are strictly decreasing, but the posting of the second layer with the
  highest score has the score \<open>3/2\<close> of the lowest-scoring posting of the first layer, and it
  has not been moved into the first layer: the loop that moves the boundary compares the
  first posting of the next layer with the first, highest-scoring posting of the current layer.
\<close>

theorem CreateLayeredIndex_tie_across_layers:
  "map_sum id (map (\<lambda>(layer, chunks, score_threshold). (map frequency layer, score_threshold)))
     (CreateLayeredIndex_term (Bm25Score (\<lambda>d. 2) 40 2 404) False 2 tied_postings) =
     Inr [([3, 2], 9 / 5), (2 # replicate 37 1, 3 / 2)] \<and>
   Bm25Score (\<lambda>d. 2) 40 2 404 \<lparr>doc_id = d, frequency = 2\<rparr> = 3 / 2"
  unfolding Bm25Score_tied using layers_tied by (simp add: tied_score_def)

section \<open>The meta file of the layered index\<close>




















end
